theory Spec2Isabelle
  imports Main "HOL-Library.Word"
begin

section \<open>Machine types\<close>

text \<open>
  The payload applier of \<^verbatim>\<open>delta_performer.cc\<close> computes with \<^verbatim>\<open>uint64_t\<close> values
  (block numbers, byte offsets, lengths) and with byte vectors. A \<^verbatim>\<open>uint64_t\<close> is a
  64-bit word, so \<open>+\<close>, \<open>-\<close> and \<open>*\<close> wrap around as they do in the program; an
  \<^verbatim>\<open>int64_t\<close> is the same word read through \<open>sint\<close>. The size of an in-memory
  container (\<^verbatim>\<open>size_t\<close>) is a natural number, converted with \<open>of_nat\<close> where the
  program compares it with a 64-bit value.
\<close>

type_synonym u64 = "64 word"
type_synonym byte = "8 word"

section \<open>Extents and patch positions\<close>

text \<open>
  An extent is the protobuf message \<^verbatim>\<open>Extent\<close> with its two \<^verbatim>\<open>uint64\<close> fields, read
  through the accessors \<^verbatim>\<open>start_block()\<close> and \<^verbatim>\<open>num_blocks()\<close>.
\<close>

record Extent =
  start_block :: u64
  num_blocks :: u64

text \<open>
  Modelled from the spec: the constant \<^verbatim>\<open>kSparseHole\<close> is declared in
  \<^verbatim>\<open>graph_types.h\<close>, which is not among the sources. The spec fixes it as the maximum
  value of the 64-bit unsigned domain.
\<close>

definition kSparseHole :: u64 where
  "kSparseHole = - 1"

subsection \<open>Decimal output of \<^verbatim>\<open>StringPrintf\<close>\<close>

definition digit_char :: "nat \<Rightarrow> char" where
  "digit_char d = char_of (48 + d)"

function dec_nat :: "nat \<Rightarrow> string" where
  "dec_nat n = (if n < 10 then [digit_char n] else dec_nat (n div 10) @ [digit_char (n mod 10)])"
  by pat_completeness auto
termination
  by (relation "measure id") auto

declare dec_nat.simps [simp del]

text \<open>\<^verbatim>\<open>%PRIu64\<close> prints a 64-bit word as an unsigned decimal, \<^verbatim>\<open>%PRIi64\<close> as a signed one.\<close>

definition PRIu64 :: "u64 \<Rightarrow> string" where
  "PRIu64 w = dec_nat (unat w)"

definition PRIi64 :: "u64 \<Rightarrow> string" where
  "PRIi64 w = (if sint w < 0 then CHR ''-'' # dec_nat (nat (- sint w)) else dec_nat (nat (sint w)))"

text \<open>\<^verbatim>\<open>StringPrintf("%" PRIi64 ":%" PRIu64 ",", start, this_length)\<close>\<close>

definition StringPrintf_position :: "u64 \<Rightarrow> u64 \<Rightarrow> string" where
  "StringPrintf_position start this_length = PRIi64 start @ '':'' @ PRIu64 this_length @ '',''"

subsection \<open>\<^verbatim>\<open>DeltaPerformer::ExtentsToBsdiffPositionsString\<close>\<close>

text \<open>
  The loop over the extents threads the string \<^verbatim>\<open>ret\<close> and the running total
  \<^verbatim>\<open>length\<close> (here \<open>len\<close>). The variable \<^verbatim>\<open>start\<close> is an \<^verbatim>\<open>int64_t\<close>: it is kept as the
  64-bit word with the same bits, so the comparison with
  \<^verbatim>\<open>static_cast<int64_t>(kSparseHole)\<close> is equality of words, \<^verbatim>\<open>start = -1\<close> stores the
  word of all ones and \<^verbatim>\<open>start *= block_size\<close> is the product modulo \<open>2 ^ 64\<close>.
\<close>

fun positions_loop :: "Extent list \<Rightarrow> u64 \<Rightarrow> u64 \<Rightarrow> string \<Rightarrow> u64 \<Rightarrow> string \<times> u64" where
  "positions_loop [] block_size full_length ret len = (ret, len)"
| "positions_loop (extent # extents) block_size full_length ret len =
     (let start = start_block extent;
          this_length = min (full_length - len) (num_blocks extent * block_size);
          start = (if start = kSparseHole then - 1 else start * block_size)
      in positions_loop extents block_size full_length
           (ret @ StringPrintf_position start this_length) (len + this_length))"

text \<open>
  The function returns \<^verbatim>\<open>false\<close> (here \<open>None\<close>) without storing a string when the
  running total differs from \<^verbatim>\<open>full_length\<close>; otherwise it strips the last character of
  a non-empty \<^verbatim>\<open>ret\<close> and stores the string.
\<close>

definition ExtentsToBsdiffPositionsString :: "Extent list \<Rightarrow> u64 \<Rightarrow> u64 \<Rightarrow> string option" where
  "ExtentsToBsdiffPositionsString extents block_size full_length =
     (case positions_loop extents block_size full_length [] 0 of
        (ret, len) \<Rightarrow>
          if len \<noteq> full_length then None
          else Some (if ret \<noteq> [] then butlast ret else ret))"

text \<open>
  The fields the loop prints, extent by extent, as numbers: the signed start and the
  unsigned length of each entry. They are what a reader of the positions string gets back;
  \<open>render_positions\<close> is the comma-separated text of such a list.
\<close>

fun emitted_fields :: "Extent list \<Rightarrow> u64 \<Rightarrow> u64 \<Rightarrow> u64 \<Rightarrow> (int \<times> nat) list" where
  "emitted_fields [] block_size full_length len = []"
| "emitted_fields (extent # extents) block_size full_length len =
     (let this_length = min (full_length - len) (num_blocks extent * block_size);
          start = (if start_block extent = kSparseHole then - 1 else start_block extent * block_size)
      in (sint start, unat this_length)
           # emitted_fields extents block_size full_length (len + this_length))"

definition dec_int :: "int \<Rightarrow> string" where
  "dec_int i = (if i < 0 then CHR ''-'' # dec_nat (nat (- i)) else dec_nat (nat i))"

definition field_text :: "int \<times> nat \<Rightarrow> string" where
  "field_text f = dec_int (fst f) @ '':'' @ dec_nat (snd f)"

fun render_positions :: "(int \<times> nat) list \<Rightarrow> string" where
  "render_positions [] = []"
| "render_positions [f] = field_text f"
| "render_positions (f # g # fs) = field_text f @ '','' @ render_positions (g # fs)"

text \<open>
  The spec's words for the capacity of an extent list: the number of bytes its blocks
  hold, a natural number; and the same sum with each product taken as the program
  computes it, modulo \<open>2 ^ 64\<close>.
\<close>

definition total_byte_capacity :: "Extent list \<Rightarrow> u64 \<Rightarrow> nat" where
  "total_byte_capacity extents block_size =
     (\<Sum>e\<leftarrow>extents. unat (num_blocks e) * unat block_size)"

definition total_byte_capacity_u64 :: "Extent list \<Rightarrow> u64 \<Rightarrow> nat" where
  "total_byte_capacity_u64 extents block_size =
     (\<Sum>e\<leftarrow>extents. unat (num_blocks e * block_size))"

section \<open>The manifest\<close>

text \<open>
  Modelled from the spec: the protobuf messages \<^verbatim>\<open>DeltaArchiveManifest\<close> and
  \<^verbatim>\<open>DeltaArchiveManifest_InstallOperation\<close> are generated code that is not among the
  sources. The records hold what the accessors used by \<^verbatim>\<open>delta_performer.cc\<close> return
  (an absent optional field reads as its default); \<^verbatim>\<open>has_signatures_offset()\<close> and
  \<^verbatim>\<open>has_signatures_size()\<close> are the \<open>Some\<close> cases. Offsets, lengths and the block size
  are taken as 64-bit values, the type the program converts them to wherever it computes
  with them.
\<close>

datatype InstallOperation_Type = REPLACE | REPLACE_BZ | MOVE | BSDIFF

record InstallOperation =
  op_type :: InstallOperation_Type
  data_offset :: u64
  data_length :: u64
  src_extents :: "Extent list"
  src_length :: u64
  dst_extents :: "Extent list"
  dst_length :: u64

record DeltaArchiveManifest =
  install_operations :: "InstallOperation list"
  kernel_install_operations :: "InstallOperation list"
  block_size :: u64
  signatures_offset :: "u64 option"
  signatures_size :: "u64 option"

text \<open>
  The accessors of the two optional manifest fields: an absent field reads as 0.
\<close>

definition get_signatures_offset :: "DeltaArchiveManifest \<Rightarrow> u64" where
  "get_signatures_offset m = (case signatures_offset m of None \<Rightarrow> 0 | Some v \<Rightarrow> v)"

definition get_signatures_size :: "DeltaArchiveManifest \<Rightarrow> u64" where
  "get_signatures_size m = (case signatures_size m of None \<Rightarrow> 0 | Some v \<Rightarrow> v)"

section \<open>The collaborators\<close>

text \<open>
  Modelled from the spec: \<^verbatim>\<open>OmahaHashCalculator\<close> is not among the sources. The spec
  gives it three capabilities: incremental update, context save, finalize. Its state is
  the sequence of bytes absorbed so far and whether it was finalized; the saved context
  stands for the SHA-256 state after those bytes and is represented by them.
\<close>

record OmahaHashCalculator =
  absorbed :: "byte list"
  finalized :: bool

definition hash_Update :: "OmahaHashCalculator \<Rightarrow> byte list \<Rightarrow> OmahaHashCalculator" where
  "hash_Update h data = h\<lparr>absorbed := absorbed h @ data\<rparr>"

definition hash_GetContext :: "OmahaHashCalculator \<Rightarrow> byte list" where
  "hash_GetContext h = absorbed h"

definition hash_Finalize :: "OmahaHashCalculator \<Rightarrow> OmahaHashCalculator" where
  "hash_Finalize h = h\<lparr>finalized := True\<rparr>"

text \<open>The keys of the preference store that the applier writes (spec, section 6).\<close>

datatype pref_key =
    kPrefsManifestMetadataSize
  | kPrefsUpdateStateNextOperation
  | kPrefsUpdateStateNextDataOffset
  | kPrefsUpdateStateSHA256Context
  | kPrefsUpdateStateSignedSHA256Context
  | kPrefsUpdateCheckResponseHash

text \<open>
  Everything the applier does to the world outside its own fields is a call to a
  collaborator: the preference store, the Terminator, the extent writers, positioned
  reads and writes on the device descriptors, the temporary file, the patch program,
  \<^verbatim>\<open>open\<close> and \<^verbatim>\<open>close\<close>. The model records the calls in the order the program issues
  them. \<open>BeginOperation\<close> is not a call of the program: it marks the point in
  \<^verbatim>\<open>Write\<close> where the dispatch on \<^verbatim>\<open>op.type()\<close> begins, and has no effect.
\<close>

datatype call =
    SetInt64 pref_key int
  | SetString pref_key "byte list"
  | set_exit_blocked bool
  | ScopedTerminatorExitUnblocker_dtor
  | Writer_Init InstallOperation_Type int "Extent list" u64
  | Writer_Write "byte list"
  | Writer_End
  | PReadAll int u64 u64
  | PWriteAll int "byte list" u64
  | MakeTempFile string
  | open_temp string
  | WriteAll int "byte list"
  | ScopedFdCloser_dtor int
  | ScopedPathUnlinker_dtor string
  | SynchronousExec "string list"
  | sys_open string
  | sys_close int
  | FileExists string
  | BeginOperation nat

text \<open>
  What a call gives back: a success flag, a number (a descriptor, an exit code, the
  result of \<^verbatim>\<open>close\<close>), \<^verbatim>\<open>errno\<close>, bytes read, a file name. Each call reads the parts
  it has.
\<close>

record reply =
  r_ok :: bool
  r_num :: int
  r_errno :: int
  r_bytes :: "byte list"
  r_str :: string

text \<open>
  The environment is a parameter of the model. \<open>respond\<close> answers a call given the calls
  issued before it, so the devices, the store and the patch program may behave in any
  deterministic way, failures included. \<open>ParseFromArray\<close> is the protobuf parser: given
  the bytes of the array and the size passed to it, the manifest it leaves in
  \<^verbatim>\<open>manifest_\<close> and whether it succeeded. \<open>sha256_base64\<close> and \<open>sha256_raw\<close> are the
  digest of the absorbed bytes as \<^verbatim>\<open>hash()\<close> and \<^verbatim>\<open>raw_hash()\<close> return it;
  \<open>VerifySignature\<close> is \<^verbatim>\<open>PayloadSigner::VerifySignature\<close>.
\<close>

record env =
  respond :: "call list \<Rightarrow> call \<Rightarrow> reply"
  ParseFromArray :: "byte list \<Rightarrow> int \<Rightarrow> DeltaArchiveManifest \<times> bool"
  sha256_base64 :: "byte list \<Rightarrow> string"
  sha256_raw :: "byte list \<Rightarrow> byte list"
  VerifySignature :: "byte list \<Rightarrow> string \<Rightarrow> bool \<times> byte list"

section \<open>The applier\<close>

text \<open>
  The fields of \<^verbatim>\<open>DeltaPerformer\<close>, with the names the program uses (a name cannot end
  in an underscore here, so each carries a prime). \<open>calls_'\<close> is the history of calls to
  the collaborators: the state of the devices and of the preference store is what these
  calls made it. \<^verbatim>\<open>next_operation_num_\<close> is an index that never exceeds the number of
  operations. \<^verbatim>\<open>signed_hash_context_\<close> is a string that is empty (\<open>None\<close>) until a
  context is saved in it.
\<close>

record DeltaPerformer =
  fd_' :: int
  kernel_fd_' :: int
  path_' :: string
  kernel_path_' :: string
  manifest_' :: DeltaArchiveManifest
  manifest_valid_' :: bool
  manifest_metadata_size_' :: u64
  next_operation_num_' :: nat
  buffer_' :: "byte list"
  buffer_offset_' :: u64
  last_updated_buffer_offset_' :: u64
  block_size_' :: u64
  hash_calculator_' :: OmahaHashCalculator
  signed_hash_context_' :: "byte list option"
  signatures_message_data_' :: "byte list"
  calls_' :: "call list"

text \<open>
  A function of the program either returns a value or does not return: a \<^verbatim>\<open>CHECK\<close>
  failed and aborted the process, or the program's behaviour is undefined at this point
  (a division by zero, an access outside a vector). Nothing is said about what follows
  \<open>Aborted\<close>.
\<close>

datatype 'a result = Returned 'a | Aborted

definition kDeltaVersionLength :: nat where
  "kDeltaVersionLength = 8"

definition kDeltaProtobufLengthLength :: nat where
  "kDeltaProtobufLengthLength = 8"

definition kUpdateStateOperationInvalid :: int where
  "kUpdateStateOperationInvalid = - 1"

definition kUpdatePayloadPublicKeyPath :: string where
  "kUpdatePayloadPublicKeyPath = ''/usr/share/update_engine/update-payload-key.pub.pem''"

text \<open>
  Modelled from the spec: \<^verbatim>\<open>kDeltaMagic\<close> and \<^verbatim>\<open>kBspatchPath\<close> are declared in files that
  are not among the sources. The spec fixes the magic as a 4-byte ASCII tag; the program
  uses only its length. The path of the patch program is passed on as a string.
\<close>

definition kDeltaMagic :: string where
  "kDeltaMagic = ''CrAU''"

definition kBspatchPath :: string where
  "kBspatchPath = ''/usr/bin/bspatch''"

text \<open>\<^verbatim>\<open>EINVAL\<close> of \<^verbatim>\<open>errno.h\<close>.\<close>

definition EINVAL :: int where
  "EINVAL = 22"

subsection \<open>Calls\<close>

definition do_call :: "env \<Rightarrow> call \<Rightarrow> DeltaPerformer \<Rightarrow> reply \<times> DeltaPerformer" where
  "do_call e c s = (respond e (calls_' s) c, s\<lparr>calls_' := calls_' s @ [c]\<rparr>)"

definition emit :: "call \<Rightarrow> DeltaPerformer \<Rightarrow> DeltaPerformer" where
  "emit c s = s\<lparr>calls_' := calls_' s @ [c]\<rparr>"

subsection \<open>\<^verbatim>\<open>IsIdempotentOperation\<close>, \<^verbatim>\<open>OpenFile\<close>, \<^verbatim>\<open>Open\<close>, \<^verbatim>\<open>OpenKernel\<close>, \<^verbatim>\<open>Close\<close>\<close>

definition IsIdempotentOperation :: "InstallOperation \<Rightarrow> bool" where
  "IsIdempotentOperation op = (if length (src_extents op) = 0 then True else False)"

text \<open>
  \<^verbatim>\<open>OpenFile(path, fd, err)\<close> takes the descriptor by pointer: the model takes its value
  and returns the new one with \<^verbatim>\<open>*err\<close>.
\<close>

definition OpenFile :: "env \<Rightarrow> string \<Rightarrow> int \<Rightarrow> DeltaPerformer \<Rightarrow> (bool \<times> int \<times> int) \<times> DeltaPerformer" where
  "OpenFile e path fd s =
     (if fd \<noteq> - 1 then ((False, fd, EINVAL), s)
      else case do_call e (sys_open path) s of
        (r, s') \<Rightarrow>
          if r_num r < 0 then ((False, r_num r, r_errno r), s')
          else ((True, r_num r, 0), s'))"

definition Open :: "env \<Rightarrow> DeltaPerformer \<Rightarrow> string \<Rightarrow> int \<times> DeltaPerformer" where
  "Open e s path =
     (case OpenFile e path (fd_' s) s of
        ((success, fd, err), s') \<Rightarrow>
          (- err, if success then s'\<lparr>fd_' := fd, path_' := path\<rparr> else s'\<lparr>fd_' := fd\<rparr>))"

definition OpenKernel :: "env \<Rightarrow> DeltaPerformer \<Rightarrow> string \<Rightarrow> bool \<times> DeltaPerformer" where
  "OpenKernel e s kernel_path =
     (case OpenFile e kernel_path (kernel_fd_' s) s of
        ((success, fd, err), s') \<Rightarrow>
          (success, if success then s'\<lparr>kernel_fd_' := fd, kernel_path_' := kernel_path\<rparr>
                    else s'\<lparr>kernel_fd_' := fd\<rparr>))"

definition Close :: "env \<Rightarrow> DeltaPerformer \<Rightarrow> int \<times> DeltaPerformer" where
  "Close e s =
     (if buffer_' s \<noteq> [] then (- 1, s)
      else case do_call e (sys_close (kernel_fd_' s)) s of
        (r1, s1) \<Rightarrow>
          case do_call e (sys_close (fd_' s1)) s1 of
            (r2, s2) \<Rightarrow>
              let err = (if r_num r1 = - 1 then r_errno r1 else 0);
                  err = (if r_num r2 = - 1 then r_errno r2 else err)
              in (- err,
                  s2\<lparr>hash_calculator_' := hash_Finalize (hash_calculator_' s2),
                     fd_' := - 2, path_' := []\<rparr>))"

subsection \<open>\<^verbatim>\<open>DiscardBufferHeadBytes\<close>, \<^verbatim>\<open>ResetUpdateProgress\<close>, \<^verbatim>\<open>CheckpointUpdateProgress\<close>\<close>

definition DiscardBufferHeadBytes :: "nat \<Rightarrow> DeltaPerformer \<Rightarrow> DeltaPerformer" where
  "DiscardBufferHeadBytes count s =
     s\<lparr>hash_calculator_' := hash_Update (hash_calculator_' s) (take count (buffer_' s)),
       buffer_' := drop count (buffer_' s)\<rparr>"

definition ResetUpdateProgress :: "env \<Rightarrow> DeltaPerformer \<Rightarrow> bool \<times> DeltaPerformer" where
  "ResetUpdateProgress e s =
     (case do_call e (SetInt64 kPrefsUpdateStateNextOperation kUpdateStateOperationInvalid) s of
        (r, s') \<Rightarrow> (r_ok r, s'))"

text \<open>
  \<^verbatim>\<open>SetInt64\<close> takes an \<^verbatim>\<open>int64_t\<close>: the 64-bit \<^verbatim>\<open>buffer_offset_\<close> is passed as its signed
  reading.
\<close>

definition CheckpointUpdateProgress :: "env \<Rightarrow> DeltaPerformer \<Rightarrow> bool \<times> DeltaPerformer" where
  "CheckpointUpdateProgress e s =
     (let s1 = emit (set_exit_blocked True) s in
      if last_updated_buffer_offset_' s1 \<noteq> buffer_offset_' s1 then
        case ResetUpdateProgress e s1 of
          (_, s2) \<Rightarrow>
            case do_call e (SetString kPrefsUpdateStateSHA256Context
                              (hash_GetContext (hash_calculator_' s2))) s2 of
              (r3, s3) \<Rightarrow>
                if \<not> r_ok r3 then (False, s3)
                else case do_call e (SetInt64 kPrefsUpdateStateNextDataOffset
                                       (sint (buffer_offset_' s3))) s3 of
                  (r4, s4) \<Rightarrow>
                    if \<not> r_ok r4 then (False, s4)
                    else case do_call e (SetInt64 kPrefsUpdateStateNextOperation
                                           (int (next_operation_num_' s4)))
                                (s4\<lparr>last_updated_buffer_offset_' := buffer_offset_' s4\<rparr>) of
                      (r5, s5) \<Rightarrow> (r_ok r5, s5)
      else case do_call e (SetInt64 kPrefsUpdateStateNextOperation
                             (int (next_operation_num_' s1))) s1 of
        (r5, s5) \<Rightarrow> (r_ok r5, s5))"

subsection \<open>\<^verbatim>\<open>CanPerformInstallOperation\<close> and \<^verbatim>\<open>ExtractSignatureMessage\<close>\<close>

text \<open>
  \<^verbatim>\<open>buffer_.size()\<close> is a \<^verbatim>\<open>size_t\<close>; the sums are taken in \<^verbatim>\<open>uint64_t\<close>, so both sides
  of the last comparison are reduced modulo \<open>2 ^ 64\<close>.
\<close>

definition CanPerformInstallOperation :: "DeltaPerformer \<Rightarrow> InstallOperation \<Rightarrow> bool" where
  "CanPerformInstallOperation s operation =
     (if op_type operation = MOVE then True
      else if data_offset operation < buffer_offset_' s then False
      else unat (data_offset operation + data_length operation)
             \<le> (unat (buffer_offset_' s) + length (buffer_' s)) mod 2 ^ 64)"

definition ExtractSignatureMessage :: "env \<Rightarrow> DeltaPerformer \<Rightarrow> InstallOperation \<Rightarrow> bool \<times> DeltaPerformer" where
  "ExtractSignatureMessage e s operation =
     (if op_type operation \<noteq> REPLACE \<or> signatures_offset (manifest_' s) = None
         \<or> get_signatures_offset (manifest_' s) \<noteq> data_offset operation then (False, s)
      else if \<not> (signatures_size (manifest_' s) \<noteq> None
                 \<and> get_signatures_size (manifest_' s) = data_length operation) then (False, s)
      else if \<not> (signatures_message_data_' s = []) then (False, s)
      else if \<not> (buffer_offset_' s = get_signatures_offset (manifest_' s)) then (False, s)
      else if \<not> (length (buffer_' s) \<ge> unat (get_signatures_size (manifest_' s))) then (False, s)
      else
        let s1 = s\<lparr>signatures_message_data_' :=
                      take (unat (get_signatures_size (manifest_' s))) (buffer_' s)\<rparr>;
            ctx = hash_GetContext (hash_calculator_' s1);
            s2 = s1\<lparr>signed_hash_context_' := Some ctx\<rparr>
        in case do_call e (SetString kPrefsUpdateStateSignedSHA256Context ctx) s2 of
             (_, s3) \<Rightarrow> (True, s3))"

subsection \<open>\<^verbatim>\<open>PerformReplaceOperation\<close>\<close>

text \<open>
  Modelled from the spec: the extent writers (\<^verbatim>\<open>DirectExtentWriter\<close>,
  \<^verbatim>\<open>ZeroPadExtentWriter\<close>, \<^verbatim>\<open>BzipExtentWriter\<close>) are not among the sources. The spec
  wires REPLACE to zero-pad over direct and REPLACE_BZ to bzip2 over zero-pad over
  direct; \<open>Writer_Init\<close> carries the operation type that selects the stack. The three
  calls \<^verbatim>\<open>Init\<close>, \<^verbatim>\<open>Write\<close>, \<^verbatim>\<open>End\<close> are calls to the collaborator, each under
  \<^verbatim>\<open>TEST_AND_RETURN_FALSE\<close>: \<open>writer_calls\<close> issues them on the call history \<open>cs\<close> and
  gives back whether all three succeeded.
\<close>

definition writer_calls ::
  "env \<Rightarrow> call list \<Rightarrow> InstallOperation_Type \<Rightarrow> int \<Rightarrow> Extent list \<Rightarrow> u64 \<Rightarrow> byte list
     \<Rightarrow> bool \<times> call list" where
  "writer_calls e cs t fd extents bs data =
     (let c1 = Writer_Init t fd extents bs;
          c2 = Writer_Write data
      in if \<not> r_ok (respond e cs c1) then (False, cs @ [c1])
         else if \<not> r_ok (respond e (cs @ [c1]) c2) then (False, cs @ [c1, c2])
         else if \<not> r_ok (respond e (cs @ [c1, c2]) Writer_End)
         then (False, cs @ [c1, c2, Writer_End])
         else (True, cs @ [c1, c2, Writer_End]))"

definition PerformReplaceOperation ::
  "env \<Rightarrow> DeltaPerformer \<Rightarrow> InstallOperation \<Rightarrow> bool \<Rightarrow> bool result \<times> DeltaPerformer" where
  "PerformReplaceOperation e s operation is_kernel_partition =
     (if \<not> (op_type operation = REPLACE \<or> op_type operation = REPLACE_BZ) then (Aborted, s)
      else if \<not> (buffer_offset_' s = data_offset operation) then (Aborted, s)
      else if \<not> (length (buffer_' s) \<ge> unat (data_length operation)) then (Aborted, s)
      else case ExtractSignatureMessage e s operation of
        (_, s0) \<Rightarrow>
          let extents = dst_extents operation;
              fd = (if is_kernel_partition then kernel_fd_' s0 else fd_' s0)
          in case writer_calls e (calls_' s0) (op_type operation) fd extents (block_size_' s0)
                    (take (unat (data_length operation)) (buffer_' s0)) of
               (False, cs) \<Rightarrow> (Returned False, s0\<lparr>calls_' := cs\<rparr>)
             | (True, cs) \<Rightarrow>
                 (Returned True,
                  DiscardBufferHeadBytes (unat (data_length operation))
                    (s0\<lparr>calls_' := cs,
                        buffer_offset_' := buffer_offset_' s0 + data_length operation\<rparr>)))"

subsection \<open>\<^verbatim>\<open>PerformMoveOperation\<close>\<close>

text \<open>
  The two loops thread the call history, the vector \<^verbatim>\<open>buf\<close> and the byte counter.
  \<^verbatim>\<open>PReadAll\<close> stores the bytes it read at \<^verbatim>\<open>&buf[bytes_read]\<close>, at most \<^verbatim>\<open>count\<close> of
  them; storing past the end of \<^verbatim>\<open>buf\<close>, or passing \<^verbatim>\<open>PWriteAll\<close> a range that leaves
  \<^verbatim>\<open>buf\<close>, is undefined behaviour. The \<^verbatim>\<open>DCHECK\<close>s are compiled out of a release build
  and are not modelled. The comparison of \<^verbatim>\<open>bytes_read_this_iteration\<close> is with the
  count cast to the signed \<^verbatim>\<open>ssize_t\<close>.
\<close>

fun move_read ::
  "env \<Rightarrow> int \<Rightarrow> u64 \<Rightarrow> Extent list \<Rightarrow> call list \<Rightarrow> byte list \<Rightarrow> nat
     \<Rightarrow> bool result \<times> call list \<times> byte list \<times> nat" where
  "move_read e fd bs [] cs buf bytes_read = (Returned True, cs, buf, bytes_read)"
| "move_read e fd bs (extent # extents) cs buf bytes_read =
     (let count = num_blocks extent * bs;
          c = PReadAll fd count (start_block extent * bs);
          r = respond e cs c;
          data = take (unat count) (r_bytes r)
      in if bytes_read + length data > length buf then (Aborted, cs @ [c], buf, bytes_read)
         else
           let buf' = take bytes_read buf @ data @ drop (bytes_read + length data) buf in
           if \<not> r_ok r then (Returned False, cs @ [c], buf', bytes_read)
           else if \<not> (int (length data) = sint count) then (Returned False, cs @ [c], buf', bytes_read)
           else move_read e fd bs extents (cs @ [c]) buf' (bytes_read + length data))"

fun move_write ::
  "env \<Rightarrow> int \<Rightarrow> u64 \<Rightarrow> Extent list \<Rightarrow> call list \<Rightarrow> byte list \<Rightarrow> nat
     \<Rightarrow> bool result \<times> call list" where
  "move_write e fd bs [] cs buf bytes_written = (Returned True, cs)"
| "move_write e fd bs (extent # extents) cs buf bytes_written =
     (let count = num_blocks extent * bs in
      if bytes_written + unat count > length buf then (Aborted, cs)
      else
        let c = PWriteAll fd (take (unat count) (drop bytes_written buf)) (start_block extent * bs);
            r = respond e cs c
        in if \<not> r_ok r then (Returned False, cs @ [c])
           else move_write e fd bs extents (cs @ [c]) buf (bytes_written + unat count))"

definition move_calls ::
  "env \<Rightarrow> call list \<Rightarrow> int \<Rightarrow> u64 \<Rightarrow> InstallOperation \<Rightarrow> bool result \<times> call list" where
  "move_calls e cs fd bs operation =
     (let blocks_to_write = sum_list (map num_blocks (dst_extents operation));
          buf = replicate (unat (blocks_to_write * bs)) (0 :: byte)
      in case move_read e fd bs (src_extents operation) cs buf 0 of
           (Aborted, cs1, _, _) \<Rightarrow> (Aborted, cs1)
         | (Returned False, cs1, _, _) \<Rightarrow> (Returned False, cs1)
         | (Returned True, cs1, buf', _) \<Rightarrow> move_write e fd bs (dst_extents operation) cs1 buf' 0)"

definition PerformMoveOperation ::
  "env \<Rightarrow> DeltaPerformer \<Rightarrow> InstallOperation \<Rightarrow> bool \<Rightarrow> bool result \<times> DeltaPerformer" where
  "PerformMoveOperation e s operation is_kernel_partition =
     (let fd = (if is_kernel_partition then kernel_fd_' s else fd_' s)
      in case move_calls e (calls_' s) fd (block_size_' s) operation of
           (res, cs) \<Rightarrow> (res, s\<lparr>calls_' := cs\<rparr>))"

subsection \<open>\<^verbatim>\<open>PerformBsdiffOperation\<close>\<close>

text \<open>
  \<open>bsdiff_calls\<close> is the part of the function between the two position strings and the
  update of the buffer: the temporary file, the patch program and the zeroing of the
  tail, on the call history \<open>cs\<close>. The destructors of \<^verbatim>\<open>ScopedFdCloser\<close> and
  \<^verbatim>\<open>ScopedPathUnlinker\<close> run where their scopes end: the first after \<^verbatim>\<open>WriteAll\<close>, the
  second on every return after the temporary file was made. \<^verbatim>\<open>dst_length % block_size_\<close>
  with a block size of 0 is undefined, and so is \<^verbatim>\<open>dst_extents(dst_extents_size() - 1)\<close>
  of an empty list.
\<close>

definition bsdiff_calls ::
  "env \<Rightarrow> call list \<Rightarrow> int \<Rightarrow> string \<Rightarrow> u64 \<Rightarrow> InstallOperation \<Rightarrow> string \<Rightarrow> string \<Rightarrow> byte list
     \<Rightarrow> bool result \<times> call list" where
  "bsdiff_calls e cs fd path bs operation input_positions output_positions data =
     (let c1 = MakeTempFile ''/tmp/au_patch.XXXXXX'';
          temp_filename = r_str (respond e cs c1);
          c2 = open_temp temp_filename;
          tmp_fd = r_num (respond e (cs @ [c1]) c2);
          c3 = WriteAll tmp_fd data;
          c4 = ScopedFdCloser_dtor tmp_fd;
          c5 = SynchronousExec
                 [kBspatchPath, path, path, temp_filename, input_positions, output_positions];
          r5 = respond e (cs @ [c1, c2, c3, c4]) c5;
          unlink = ScopedPathUnlinker_dtor temp_filename
      in if \<not> r_ok (respond e cs c1) then (Returned False, cs @ [c1])
         else if \<not> r_ok (respond e (cs @ [c1, c2]) c3)
         then (Returned False, cs @ [c1, c2, c3, c4, unlink])
         else if \<not> r_ok r5 then (Returned False, cs @ [c1, c2, c3, c4, c5, unlink])
         else if \<not> (r_num r5 = 0) then (Returned False, cs @ [c1, c2, c3, c4, c5, unlink])
         else if bs = 0 then (Aborted, cs @ [c1, c2, c3, c4, c5])
         else if dst_length operation mod bs \<noteq> 0 then
           (if dst_extents operation = [] then (Aborted, cs @ [c1, c2, c3, c4, c5])
            else
              let last_extent = last (dst_extents operation);
                  end_byte = (start_block last_extent + num_blocks last_extent) * bs;
                  begin_byte = end_byte - (bs - dst_length operation mod bs);
                  zeros = replicate (unat (end_byte - begin_byte)) (0 :: byte);
                  c6 = PWriteAll fd zeros begin_byte
              in if \<not> r_ok (respond e (cs @ [c1, c2, c3, c4, c5]) c6)
                 then (Returned False, cs @ [c1, c2, c3, c4, c5, c6, unlink])
                 else (Returned True, cs @ [c1, c2, c3, c4, c5, c6, unlink]))
         else (Returned True, cs @ [c1, c2, c3, c4, c5, unlink]))"

definition PerformBsdiffOperation ::
  "env \<Rightarrow> DeltaPerformer \<Rightarrow> InstallOperation \<Rightarrow> bool \<Rightarrow> bool result \<times> DeltaPerformer" where
  "PerformBsdiffOperation e s operation is_kernel_partition =
     (if \<not> (buffer_offset_' s = data_offset operation) then (Aborted, s)
      else if \<not> (length (buffer_' s) \<ge> unat (data_length operation)) then (Aborted, s)
      else case ExtentsToBsdiffPositionsString (src_extents operation) (block_size_' s)
                  (src_length operation) of
        None \<Rightarrow> (Returned False, s)
      | Some input_positions \<Rightarrow>
      case ExtentsToBsdiffPositionsString (dst_extents operation) (block_size_' s)
             (dst_length operation) of
        None \<Rightarrow> (Returned False, s)
      | Some output_positions \<Rightarrow>
          let fd = (if is_kernel_partition then kernel_fd_' s else fd_' s);
              path = (if is_kernel_partition then kernel_path_' s else path_' s)
          in case bsdiff_calls e (calls_' s) fd path (block_size_' s) operation
                    input_positions output_positions
                    (take (unat (data_length operation)) (buffer_' s)) of
               (Returned True, cs) \<Rightarrow>
                 (Returned True,
                  DiscardBufferHeadBytes (unat (data_length operation))
                    (s\<lparr>calls_' := cs,
                       buffer_offset_' := buffer_offset_' s + data_length operation\<rparr>))
             | (res, cs) \<Rightarrow> (res, s\<lparr>calls_' := cs\<rparr>))"

subsection \<open>\<^verbatim>\<open>Write\<close>\<close>

text \<open>
  \<^verbatim>\<open>memcpy\<close> of eight bytes followed by \<^verbatim>\<open>be64toh\<close>: the big-endian reading of the bytes.
\<close>

definition be64toh :: "byte list \<Rightarrow> u64" where
  "be64toh bs = foldl (\<lambda>acc b. acc * 256 + ucast b) 0 bs"

text \<open>
  The block \<^verbatim>\<open>if (!manifest_valid_) { ... }\<close> of \<^verbatim>\<open>Write\<close>. \<open>Some r\<close> is a
  \<^verbatim>\<open>return\<close> from \<^verbatim>\<open>Write\<close> inside the block, \<open>None\<close> is leaving the block at its end.
  The sum with \<^verbatim>\<open>protobuf_length\<close> is a \<^verbatim>\<open>uint64_t\<close> and wraps around.
  \<^verbatim>\<open>ParseFromArray\<close> takes its size as an \<^verbatim>\<open>int\<close>, 32 bits wide: it is handed the array of
  that many bytes at \<^verbatim>\<open>&buffer_[offset]\<close>. The result of storing the metadata size in
  the preference store is only logged.
\<close>

definition Write_manifest :: "env \<Rightarrow> DeltaPerformer \<Rightarrow> int \<Rightarrow> int result option \<times> DeltaPerformer" where
  "Write_manifest e s count =
     (if length (buffer_' s) < length kDeltaMagic + kDeltaVersionLength + kDeltaProtobufLengthLength
      then (Some (Returned count), s)
      else
        let protobuf_length =
              be64toh (take kDeltaProtobufLengthLength
                         (drop (length kDeltaMagic + kDeltaVersionLength) (buffer_' s)))
        in if length (buffer_' s)
                < unat (of_nat (length kDeltaMagic + kDeltaVersionLength + kDeltaProtobufLengthLength)
                          + protobuf_length)
           then (Some (Returned count), s)
           else
             let offset = length kDeltaMagic + kDeltaVersionLength + kDeltaProtobufLengthLength;
                 size = sint (ucast protobuf_length :: 32 word)
             in case ParseFromArray e (take (nat size) (drop offset (buffer_' s))) size of
               (m, parsed) \<Rightarrow>
                 if \<not> parsed then (Some (Returned (- EINVAL)), s\<lparr>manifest_' := m\<rparr>)
                 else
                   let s1 = s\<lparr>manifest_' := m,
                              manifest_metadata_size_' :=
                                of_nat (length kDeltaMagic + kDeltaVersionLength
                                          + kDeltaProtobufLengthLength) + protobuf_length\<rparr>;
                       s2 = DiscardBufferHeadBytes (unat (manifest_metadata_size_' s1)) s1
                   in case do_call e (SetInt64 kPrefsManifestMetadataSize
                                        (sint (manifest_metadata_size_' s2))) s2 of
                     (_, s3) \<Rightarrow>
                       (None, s3\<lparr>manifest_valid_' := True,
                                  block_size_' := block_size (manifest_' s3)\<rparr>))"

text \<open>
  The body of the \<^verbatim>\<open>while\<close> loop after the \<^verbatim>\<open>break\<close>, in the order of the program:
  \<open>reset_if_not_idempotent\<close> is the \<^verbatim>\<open>if (!IsIdempotentOperation(op))\<close> statement,
  \<open>dispatch\<close> the chain of \<^verbatim>\<open>if\<close>s on \<^verbatim>\<open>op.type()\<close> up to the result of the
  \<^verbatim>\<open>Perform\<close> function it calls; then come the increment and the checkpoint. Neither the
  result of \<^verbatim>\<open>ResetUpdateProgress\<close> nor that of \<^verbatim>\<open>CheckpointUpdateProgress\<close> is read. The
  destructor of \<^verbatim>\<open>exit_unblocker\<close> runs when the iteration ends or returns.
\<close>

definition reset_if_not_idempotent :: "env \<Rightarrow> DeltaPerformer \<Rightarrow> InstallOperation \<Rightarrow> DeltaPerformer" where
  "reset_if_not_idempotent e s op =
     (if \<not> IsIdempotentOperation op
      then snd (ResetUpdateProgress e (emit (set_exit_blocked True) s))
      else s)"

definition dispatch ::
  "env \<Rightarrow> DeltaPerformer \<Rightarrow> InstallOperation \<Rightarrow> bool \<Rightarrow> bool result \<times> DeltaPerformer" where
  "dispatch e s op is_kernel_partition =
     (if op_type op = REPLACE \<or> op_type op = REPLACE_BZ
      then PerformReplaceOperation e s op is_kernel_partition
      else if op_type op = MOVE
      then PerformMoveOperation e s op is_kernel_partition
      else if op_type op = BSDIFF
      then PerformBsdiffOperation e s op is_kernel_partition
      else (Returned True, s))"

definition Write_step :: "env \<Rightarrow> DeltaPerformer \<Rightarrow> InstallOperation \<Rightarrow> int result option \<times> DeltaPerformer" where
  "Write_step e s op =
     (let is_kernel_partition =
            (next_operation_num_' s \<ge> length (install_operations (manifest_' s)));
          s1 = reset_if_not_idempotent e s op;
          s2 = emit (BeginOperation (next_operation_num_' s1)) s1
      in case dispatch e s2 op is_kernel_partition of
           (Aborted, s3) \<Rightarrow> (Some Aborted, s3)
         | (Returned False, s3) \<Rightarrow>
             (Some (Returned (- EINVAL)), emit ScopedTerminatorExitUnblocker_dtor s3)
         | (Returned True, s3) \<Rightarrow>
             (case CheckpointUpdateProgress e
                     (s3\<lparr>next_operation_num_' := next_operation_num_' s3 + 1\<rparr>) of
                (_, s4) \<Rightarrow> (None, emit ScopedTerminatorExitUnblocker_dtor s4)))"

text \<open>
  An iteration that leaves the manifest alone and moves \<^verbatim>\<open>next_operation_num_\<close> one
  forward: what makes the loop end.
\<close>

lemma emit_fields [simp]:
  "calls_' (emit c s) = calls_' s @ [c]"
  "fd_' (emit c s) = fd_' s"
  "kernel_fd_' (emit c s) = kernel_fd_' s"
  "path_' (emit c s) = path_' s"
  "kernel_path_' (emit c s) = kernel_path_' s"
  "manifest_' (emit c s) = manifest_' s"
  "manifest_valid_' (emit c s) = manifest_valid_' s"
  "manifest_metadata_size_' (emit c s) = manifest_metadata_size_' s"
  "next_operation_num_' (emit c s) = next_operation_num_' s"
  "buffer_' (emit c s) = buffer_' s"
  "buffer_offset_' (emit c s) = buffer_offset_' s"
  "last_updated_buffer_offset_' (emit c s) = last_updated_buffer_offset_' s"
  "block_size_' (emit c s) = block_size_' s"
  "hash_calculator_' (emit c s) = hash_calculator_' s"
  "signed_hash_context_' (emit c s) = signed_hash_context_' s"
  "signatures_message_data_' (emit c s) = signatures_message_data_' s"
  by (simp_all add: emit_def)

lemma do_call_eq: "do_call e c s = (respond e (calls_' s) c, emit c s)"
  by (simp add: do_call_def emit_def)

lemma Reset_eq:
  "ResetUpdateProgress e s =
     (r_ok (respond e (calls_' s) (SetInt64 kPrefsUpdateStateNextOperation kUpdateStateOperationInvalid)),
      emit (SetInt64 kPrefsUpdateStateNextOperation kUpdateStateOperationInvalid) s)"
  by (simp add: ResetUpdateProgress_def do_call_eq)

lemma Checkpoint_frame:
  "manifest_' (snd (CheckpointUpdateProgress e s)) = manifest_' s"
  "next_operation_num_' (snd (CheckpointUpdateProgress e s)) = next_operation_num_' s"
  "fd_' (snd (CheckpointUpdateProgress e s)) = fd_' s"
  "manifest_metadata_size_' (snd (CheckpointUpdateProgress e s)) = manifest_metadata_size_' s"
  "manifest_valid_' (snd (CheckpointUpdateProgress e s)) = manifest_valid_' s"
  "block_size_' (snd (CheckpointUpdateProgress e s)) = block_size_' s"
  "buffer_' (snd (CheckpointUpdateProgress e s)) = buffer_' s"
  "buffer_offset_' (snd (CheckpointUpdateProgress e s)) = buffer_offset_' s"
  "hash_calculator_' (snd (CheckpointUpdateProgress e s)) = hash_calculator_' s"
  by (simp_all add: CheckpointUpdateProgress_def Reset_eq do_call_eq Let_def)

lemma Extract_frame:
  "manifest_' (snd (ExtractSignatureMessage e s op)) = manifest_' s"
  "next_operation_num_' (snd (ExtractSignatureMessage e s op)) = next_operation_num_' s"
  "fd_' (snd (ExtractSignatureMessage e s op)) = fd_' s"
  "manifest_metadata_size_' (snd (ExtractSignatureMessage e s op)) = manifest_metadata_size_' s"
  "manifest_valid_' (snd (ExtractSignatureMessage e s op)) = manifest_valid_' s"
  "block_size_' (snd (ExtractSignatureMessage e s op)) = block_size_' s"
  "buffer_' (snd (ExtractSignatureMessage e s op)) = buffer_' s"
  "buffer_offset_' (snd (ExtractSignatureMessage e s op)) = buffer_offset_' s"
  "hash_calculator_' (snd (ExtractSignatureMessage e s op)) = hash_calculator_' s"
  by (simp_all add: ExtractSignatureMessage_def do_call_eq Let_def)

lemma Replace_frame:
  "manifest_' (snd (PerformReplaceOperation e s op k)) = manifest_' s"
  "next_operation_num_' (snd (PerformReplaceOperation e s op k)) = next_operation_num_' s"
  "fd_' (snd (PerformReplaceOperation e s op k)) = fd_' s"
  "manifest_metadata_size_' (snd (PerformReplaceOperation e s op k)) = manifest_metadata_size_' s"
  "manifest_valid_' (snd (PerformReplaceOperation e s op k)) = manifest_valid_' s"
  "block_size_' (snd (PerformReplaceOperation e s op k)) = block_size_' s"
  by (simp_all add: PerformReplaceOperation_def Let_def DiscardBufferHeadBytes_def Extract_frame
      split_beta split: bool.splits)

lemma Move_frame:
  "manifest_' (snd (PerformMoveOperation e s op k)) = manifest_' s"
  "next_operation_num_' (snd (PerformMoveOperation e s op k)) = next_operation_num_' s"
  "fd_' (snd (PerformMoveOperation e s op k)) = fd_' s"
  "manifest_metadata_size_' (snd (PerformMoveOperation e s op k)) = manifest_metadata_size_' s"
  "manifest_valid_' (snd (PerformMoveOperation e s op k)) = manifest_valid_' s"
  "block_size_' (snd (PerformMoveOperation e s op k)) = block_size_' s"
  "buffer_' (snd (PerformMoveOperation e s op k)) = buffer_' s"
  "buffer_offset_' (snd (PerformMoveOperation e s op k)) = buffer_offset_' s"
  "hash_calculator_' (snd (PerformMoveOperation e s op k)) = hash_calculator_' s"
  by (simp_all add: PerformMoveOperation_def Let_def split_beta)

lemma Bsdiff_frame:
  "manifest_' (snd (PerformBsdiffOperation e s op k)) = manifest_' s"
  "next_operation_num_' (snd (PerformBsdiffOperation e s op k)) = next_operation_num_' s"
  "fd_' (snd (PerformBsdiffOperation e s op k)) = fd_' s"
  "manifest_metadata_size_' (snd (PerformBsdiffOperation e s op k)) = manifest_metadata_size_' s"
  "manifest_valid_' (snd (PerformBsdiffOperation e s op k)) = manifest_valid_' s"
  "block_size_' (snd (PerformBsdiffOperation e s op k)) = block_size_' s"
  by (simp_all add: PerformBsdiffOperation_def Let_def DiscardBufferHeadBytes_def
      split_beta split: option.splits result.splits bool.splits)

lemma dispatch_frame:
  "manifest_' (snd (dispatch e s op k)) = manifest_' s"
  "next_operation_num_' (snd (dispatch e s op k)) = next_operation_num_' s"
  "fd_' (snd (dispatch e s op k)) = fd_' s"
  "manifest_metadata_size_' (snd (dispatch e s op k)) = manifest_metadata_size_' s"
  "manifest_valid_' (snd (dispatch e s op k)) = manifest_valid_' s"
  "block_size_' (snd (dispatch e s op k)) = block_size_' s"
  by (simp_all add: dispatch_def Replace_frame Move_frame Bsdiff_frame)

lemma reset_frame:
  "manifest_' (reset_if_not_idempotent e s op) = manifest_' s"
  "next_operation_num_' (reset_if_not_idempotent e s op) = next_operation_num_' s"
  "fd_' (reset_if_not_idempotent e s op) = fd_' s"
  "manifest_metadata_size_' (reset_if_not_idempotent e s op) = manifest_metadata_size_' s"
  "manifest_valid_' (reset_if_not_idempotent e s op) = manifest_valid_' s"
  "block_size_' (reset_if_not_idempotent e s op) = block_size_' s"
  "buffer_' (reset_if_not_idempotent e s op) = buffer_' s"
  "buffer_offset_' (reset_if_not_idempotent e s op) = buffer_offset_' s"
  "hash_calculator_' (reset_if_not_idempotent e s op) = hash_calculator_' s"
  by (simp_all add: reset_if_not_idempotent_def Reset_eq)

text \<open>The three ways an iteration ends, with the state each leaves.\<close>

lemma Write_step_cases:
  assumes "dispatch e (emit (BeginOperation (next_operation_num_' s)) (reset_if_not_idempotent e s op)) op
             (length (install_operations (manifest_' s)) \<le> next_operation_num_' s) = (res, s3)"
  shows "Write_step e s op =
     (case res of
        Aborted \<Rightarrow> (Some Aborted, s3)
      | Returned False \<Rightarrow> (Some (Returned (- EINVAL)), emit ScopedTerminatorExitUnblocker_dtor s3)
      | Returned True \<Rightarrow>
          (None, emit ScopedTerminatorExitUnblocker_dtor
             (snd (CheckpointUpdateProgress e
                (s3\<lparr>next_operation_num_' := next_operation_num_' s3 + 1\<rparr>)))))"
  using assms
  by (simp add: Write_step_def Let_def reset_frame split_beta split: result.splits bool.splits)

lemma Write_step_fields:
  "manifest_' (snd (Write_step e s op)) = manifest_' s"
  "fd_' (snd (Write_step e s op)) = fd_' s"
  "manifest_metadata_size_' (snd (Write_step e s op)) = manifest_metadata_size_' s"
  "manifest_valid_' (snd (Write_step e s op)) = manifest_valid_' s"
  "block_size_' (snd (Write_step e s op)) = block_size_' s"
proof -
  obtain res s3 where d: "dispatch e (emit (BeginOperation (next_operation_num_' s))
      (reset_if_not_idempotent e s op)) op
      (length (install_operations (manifest_' s)) \<le> next_operation_num_' s) = (res, s3)"
    by (cases "dispatch e (emit (BeginOperation (next_operation_num_' s))
      (reset_if_not_idempotent e s op)) op
      (length (install_operations (manifest_' s)) \<le> next_operation_num_' s)")
  have f: "manifest_' s3 = manifest_' s" "fd_' s3 = fd_' s"
    "manifest_metadata_size_' s3 = manifest_metadata_size_' s"
    "manifest_valid_' s3 = manifest_valid_' s" "block_size_' s3 = block_size_' s"
    using dispatch_frame [of e "emit (BeginOperation (next_operation_num_' s))
      (reset_if_not_idempotent e s op)" op
      "length (install_operations (manifest_' s)) \<le> next_operation_num_' s"]
    by (simp_all add: d reset_frame)
  show "manifest_' (snd (Write_step e s op)) = manifest_' s"
    "fd_' (snd (Write_step e s op)) = fd_' s"
    "manifest_metadata_size_' (snd (Write_step e s op)) = manifest_metadata_size_' s"
    "manifest_valid_' (snd (Write_step e s op)) = manifest_valid_' s"
    "block_size_' (snd (Write_step e s op)) = block_size_' s"
    by (simp_all add: Write_step_cases [OF d] f Checkpoint_frame split: result.splits bool.splits)
qed

lemma Write_step_frame:
  assumes "Write_step e s op = (None, s')"
  shows "manifest_' s' = manifest_' s \<and> next_operation_num_' s' = Suc (next_operation_num_' s)"
proof -
  obtain res s3 where d: "dispatch e (emit (BeginOperation (next_operation_num_' s))
      (reset_if_not_idempotent e s op)) op
      (length (install_operations (manifest_' s)) \<le> next_operation_num_' s) = (res, s3)"
    by (cases "dispatch e (emit (BeginOperation (next_operation_num_' s))
      (reset_if_not_idempotent e s op)) op
      (length (install_operations (manifest_' s)) \<le> next_operation_num_' s)")
  have f: "next_operation_num_' s3 = next_operation_num_' s"
    using dispatch_frame(2) [of e "emit (BeginOperation (next_operation_num_' s))
      (reset_if_not_idempotent e s op)" op
      "length (install_operations (manifest_' s)) \<le> next_operation_num_' s"]
    by (simp add: d reset_frame)
  have "manifest_' s' = manifest_' s"
    using Write_step_fields(1) [of e s op] assms by simp
  moreover have "next_operation_num_' s' = Suc (next_operation_num_' s)"
    using assms unfolding Write_step_cases [OF d]
    by (auto simp: f Checkpoint_frame split: result.splits bool.splits)
  ultimately show ?thesis by simp
qed

text \<open>
  The \<^verbatim>\<open>while\<close> loop of \<^verbatim>\<open>Write\<close>. \<open>Some r\<close> is a \<^verbatim>\<open>return\<close> inside the loop, \<open>None\<close> is
  leaving the loop, by its condition or by \<^verbatim>\<open>break\<close>.
\<close>

definition operation_at :: "DeltaArchiveManifest \<Rightarrow> nat \<Rightarrow> InstallOperation" where
  "operation_at m n =
     (if n < length (install_operations m)
      then install_operations m ! n
      else kernel_install_operations m ! (n - length (install_operations m)))"

definition next_operation :: "DeltaPerformer \<Rightarrow> InstallOperation" where
  "next_operation s = operation_at (manifest_' s) (next_operation_num_' s)"

definition total_operations :: "DeltaPerformer \<Rightarrow> nat" where
  "total_operations s =
     length (install_operations (manifest_' s)) + length (kernel_install_operations (manifest_' s))"

function Write_loop :: "env \<Rightarrow> DeltaPerformer \<Rightarrow> int result option \<times> DeltaPerformer" where
  "Write_loop e s =
     (if \<not> next_operation_num_' s < total_operations s then (None, s)
      else if \<not> CanPerformInstallOperation s (next_operation s) then (None, s)
      else case Write_step e s (next_operation s) of
             (Some r, s') \<Rightarrow> (Some r, s')
           | (None, s') \<Rightarrow> Write_loop e s')"
  by pat_completeness auto
termination
proof (relation "measure (\<lambda>(e, s). total_operations s - next_operation_num_' s)")
  show "wf (measure (\<lambda>(e, s). total_operations s - next_operation_num_' s))"
    by simp
next
  fix e s x s'
  assume more: "\<not> \<not> next_operation_num_' s < total_operations s"
    and step: "(x, s') = Write_step e s (next_operation s)"
    and x: "x = None"
  from step x have "Write_step e s (next_operation s) = (None, s')"
    by simp
  from Write_step_frame [OF this] more
  show "((e, s'), (e, s)) \<in> measure (\<lambda>(e, s). total_operations s - next_operation_num_' s)"
    by (simp add: total_operations_def)
qed

declare Write_loop.simps [simp del]

definition Write :: "env \<Rightarrow> DeltaPerformer \<Rightarrow> byte list \<Rightarrow> int result \<times> DeltaPerformer" where
  "Write e s bytes =
     (let count = int (length bytes);
          s0 = s\<lparr>buffer_' := buffer_' s @ bytes\<rparr>
      in case (if \<not> manifest_valid_' s0 then Write_manifest e s0 count else (None, s0)) of
           (Some r, s1) \<Rightarrow> (r, s1)
         | (None, s1) \<Rightarrow>
             (case Write_loop e s1 of
                (Some r, s2) \<Rightarrow> (r, s2)
              | (None, s2) \<Rightarrow> (Returned count, s2)))"

subsection \<open>\<^verbatim>\<open>VerifyPayload\<close>\<close>

text \<open>
  Modelled from the spec: \<^verbatim>\<open>hash()\<close> of the hash calculator is the base64 digest of the
  completed SHA-256, and is empty while the calculator is not finalized.
  \<^verbatim>\<open>SetContext\<close> of a fresh calculator fails on the empty string.
\<close>

definition hash_hash :: "env \<Rightarrow> OmahaHashCalculator \<Rightarrow> string" where
  "hash_hash e h = (if finalized h then sha256_base64 e (absorbed h) else [])"

definition VerifyPayload :: "env \<Rightarrow> DeltaPerformer \<Rightarrow> string \<Rightarrow> string \<Rightarrow> u64 \<Rightarrow> bool" where
  "VerifyPayload e s public_key_path update_check_response_hash update_check_response_size =
     (let key_path =
            (if public_key_path = [] then kUpdatePayloadPublicKeyPath else public_key_path);
          download_hash_data = hash_hash e (hash_calculator_' s)
      in if \<not> (download_hash_data \<noteq> []) then False
         else if \<not> (download_hash_data = update_check_response_hash) then False
         else if \<not> (update_check_response_size = manifest_metadata_size_' s + buffer_offset_' s)
         then False
         else if \<not> r_ok (respond e (calls_' s) (FileExists key_path)) then True
         else if \<not> (signatures_message_data_' s \<noteq> []) then False
         else case VerifySignature e (signatures_message_data_' s) key_path of
           (verified, signed_hash_data) \<Rightarrow>
             if \<not> verified then False
             else case signed_hash_context_' s of
               None \<Rightarrow> False
             | Some ctx \<Rightarrow>
                 let hash_data = sha256_raw e ctx
                 in if \<not> (hash_data \<noteq> []) then False
                    else if \<not> (hash_data = signed_hash_data) then False
                    else True)"

subsection \<open>The host\<close>

text \<open>
  The host pushes the payload in chunks, one \<^verbatim>\<open>Write\<close> per chunk, and stops at the first
  call that does not return the accepted byte count (a negative return is unrecoverable).
  \<open>None\<close>: every chunk was accepted; \<open>Some r\<close>: the result of the call that ended the run.
\<close>

fun feed_chunks :: "env \<Rightarrow> DeltaPerformer \<Rightarrow> byte list list \<Rightarrow> int result option \<times> DeltaPerformer" where
  "feed_chunks e s [] = (None, s)"
| "feed_chunks e s (chunk # chunks) =
     (case Write e s chunk of
        (Returned n, s') \<Rightarrow> if n < 0 then (Some (Returned n), s') else feed_chunks e s' chunks
      | (Aborted, s') \<Rightarrow> (Some Aborted, s'))"

section \<open>Concrete environments and states\<close>

text \<open>
  Modelled from the spec: the constructor of \<^verbatim>\<open>DeltaPerformer\<close> is in
  \<^verbatim>\<open>delta_performer.h\<close>, which is not among the sources. A new applier has consumed
  nothing: no manifest, an empty buffer, offsets 0, a fresh hash calculator, no call
  issued, and both descriptors \<open>-1\<close>, the value \<^verbatim>\<open>OpenFile\<close> requires before it opens a
  file. \<^verbatim>\<open>last_updated_buffer_offset_\<close> starts at a value no offset has yet (the maximum).
\<close>

definition empty_manifest :: DeltaArchiveManifest where
  "empty_manifest =
     \<lparr>install_operations = [], kernel_install_operations = [], block_size = 4096,
      signatures_offset = None, signatures_size = None\<rparr>"

definition new_performer :: DeltaPerformer where
  "new_performer =
     \<lparr>fd_' = - 1, kernel_fd_' = - 1, path_' = [], kernel_path_' = [],
      manifest_' = empty_manifest, manifest_valid_' = False, manifest_metadata_size_' = 0,
      next_operation_num_' = 0, buffer_' = [], buffer_offset_' = 0,
      last_updated_buffer_offset_' = - 1, block_size_' = 0,
      hash_calculator_' = \<lparr>absorbed = [], finalized = False\<rparr>,
      signed_hash_context_' = None, signatures_message_data_' = [], calls_' = []\<rparr>"

text \<open>
  Environments for running the model on concrete inputs. In \<open>stub_env m\<close> every call
  succeeds (descriptor 3, exit code 0, a read gives zero bytes) and the parser yields the manifest
  \<open>m\<close>. \<open>failing_prefs_env m\<close> differs in that every write to the preference store
  fails, \<open>no_key_env m\<close> in that no file exists.
\<close>

definition ok_reply :: reply where
  "ok_reply = \<lparr>r_ok = True, r_num = 0, r_errno = 0, r_bytes = [], r_str = ''/tmp/au_patch.000000''\<rparr>"

definition stub_respond :: "call list \<Rightarrow> call \<Rightarrow> reply" where
  "stub_respond cs c =
     (case c of
        sys_open p \<Rightarrow> ok_reply\<lparr>r_num := 3\<rparr>
      | PReadAll fd count offset \<Rightarrow> ok_reply\<lparr>r_bytes := replicate (unat count) 0\<rparr>
      | _ \<Rightarrow> ok_reply)"

definition stub_env :: "DeltaArchiveManifest \<Rightarrow> env" where
  "stub_env m =
     \<lparr>respond = stub_respond,
      ParseFromArray = (\<lambda>data size. (m, True)),
      sha256_base64 = (\<lambda>data. ''digest''),
      sha256_raw = (\<lambda>data. [1]),
      VerifySignature = (\<lambda>sig key. (True, [1]))\<rparr>"

definition failing_prefs_respond :: "call list \<Rightarrow> call \<Rightarrow> reply" where
  "failing_prefs_respond cs c =
     (case c of
        SetInt64 k v \<Rightarrow> ok_reply\<lparr>r_ok := False\<rparr>
      | SetString k v \<Rightarrow> ok_reply\<lparr>r_ok := False\<rparr>
      | _ \<Rightarrow> stub_respond cs c)"

definition failing_prefs_env :: "DeltaArchiveManifest \<Rightarrow> env" where
  "failing_prefs_env m = (stub_env m)\<lparr>respond := failing_prefs_respond\<rparr>"

definition no_key_respond :: "call list \<Rightarrow> call \<Rightarrow> reply" where
  "no_key_respond cs c =
     (case c of FileExists p \<Rightarrow> ok_reply\<lparr>r_ok := False\<rparr> | _ \<Rightarrow> stub_respond cs c)"

definition no_key_env :: "DeltaArchiveManifest \<Rightarrow> env" where
  "no_key_env m = (stub_env m)\<lparr>respond := no_key_respond\<rparr>"

text \<open>
  Payloads for running \<^verbatim>\<open>Write\<close>: a prefix of 20 bytes (a 4-byte tag, 8 version bytes, a
  protobuf length of 0) followed by data blobs. The stub parser yields the manifest of the
  environment whatever the protobuf bytes are. \<open>replace_op off len\<close> is a REPLACE of
  \<open>len\<close> data bytes at data offset \<open>off\<close> onto block 0; \<open>move_op\<close> moves block 0 to
  block 1.
\<close>

definition payload_prefix :: "string \<Rightarrow> byte list" where
  "payload_prefix tag = map of_char tag @ [0, 0, 0, 0, 0, 0, 0, 0] @ [0, 0, 0, 0, 0, 0, 0, 0]"

definition replace_op :: "u64 \<Rightarrow> u64 \<Rightarrow> InstallOperation" where
  "replace_op off len =
     \<lparr>op_type = REPLACE, data_offset = off, data_length = len, src_extents = [],
      src_length = 0, dst_extents = [\<lparr>start_block = 0, num_blocks = 1\<rparr>], dst_length = 0\<rparr>"

definition move_op :: InstallOperation where
  "move_op =
     \<lparr>op_type = MOVE, data_offset = 0, data_length = 0,
      src_extents = [\<lparr>start_block = 0, num_blocks = 1\<rparr>], src_length = 0,
      dst_extents = [\<lparr>start_block = 1, num_blocks = 1\<rparr>], dst_length = 0\<rparr>"

definition manifest_of :: "InstallOperation list \<Rightarrow> DeltaArchiveManifest" where
  "manifest_of ops = empty_manifest\<lparr>install_operations := ops\<rparr>"

section \<open>The payload prefix in the spec's words\<close>

text \<open>
  The spec's layout of the prefix: a 4-byte magic, 8 version bytes, the 8-byte big-endian
  \<^verbatim>\<open>PROTOBUF_LENGTH\<close> at offset 12 and the protobuf at offset 20. \<open>prefix_complete\<close>: the
  bytes received hold the whole prefix (the sum is the program's 64-bit sum);
  \<open>manifest_rejected\<close>: the parser rejects the protobuf bytes.
\<close>

definition protobuf_length_of :: "byte list \<Rightarrow> u64" where
  "protobuf_length_of received = be64toh (take 8 (drop 12 received))"

definition prefix_complete :: "byte list \<Rightarrow> bool" where
  "prefix_complete received =
     (20 \<le> length received \<and> unat (20 + protobuf_length_of received) \<le> length received)"

definition manifest_rejected :: "env \<Rightarrow> byte list \<Rightarrow> bool" where
  "manifest_rejected e received =
     (let size = sint (ucast (protobuf_length_of received) :: 32 word)
      in \<not> snd (ParseFromArray e (take (nat size) (drop 20 received)) size))"

section \<open>The patch-tool invocation in the spec's words\<close>

text \<open>
  The spec's BSDIFF step up to the patch tool: write the data blob to a unique temporary
  file, invoke the patch program with
  \<open>(device_path, device_path, temp_file, src_positions, dst_positions)\<close> and require exit
  code 0. \<open>patch_tool_calls\<close> are these calls on the call history \<open>cs\<close> (the name of the
  temporary file and its descriptor are what the environment answers);
  \<open>patch_tool_succeeded\<close>: the temporary file was made and written and the program ran
  and exited with code 0. \<open>bsdiff_op\<close> is the BSDIFF operation of the spec's scenario 4
  when \<open>dst_length = 4096 * 3 - 100\<close>.
\<close>

definition temp_file_of :: "env \<Rightarrow> call list \<Rightarrow> string" where
  "temp_file_of e cs = r_str (respond e cs (MakeTempFile ''/tmp/au_patch.XXXXXX''))"

definition patch_tool_calls ::
  "env \<Rightarrow> call list \<Rightarrow> string \<Rightarrow> byte list \<Rightarrow> string \<Rightarrow> string \<Rightarrow> call list" where
  "patch_tool_calls e cs path data src_positions dst_positions =
     (let make = MakeTempFile ''/tmp/au_patch.XXXXXX'';
          temp_file = temp_file_of e cs;
          tmp_fd = r_num (respond e (cs @ [make]) (open_temp temp_file))
      in [make, open_temp temp_file, WriteAll tmp_fd data, ScopedFdCloser_dtor tmp_fd,
          SynchronousExec [kBspatchPath, path, path, temp_file, src_positions, dst_positions]])"

definition patch_tool_succeeded ::
  "env \<Rightarrow> call list \<Rightarrow> string \<Rightarrow> byte list \<Rightarrow> string \<Rightarrow> string \<Rightarrow> bool" where
  "patch_tool_succeeded e cs path data src_positions dst_positions =
     (let cl = patch_tool_calls e cs path data src_positions dst_positions
      in r_ok (respond e cs (cl ! 0))
         \<and> r_ok (respond e (cs @ take 2 cl) (cl ! 2))
         \<and> r_ok (respond e (cs @ take 4 cl) (cl ! 4))
         \<and> r_num (respond e (cs @ take 4 cl) (cl ! 4)) = 0)"

definition bsdiff_op :: "u64 \<Rightarrow> InstallOperation" where
  "bsdiff_op len =
     \<lparr>op_type = BSDIFF, data_offset = 0, data_length = 2,
      src_extents = [\<lparr>start_block = 20, num_blocks = 3\<rparr>], src_length = 12288,
      dst_extents = [\<lparr>start_block = 20, num_blocks = 3\<rparr>], dst_length = len\<rparr>"

section \<open>The crash-safety pre-step in the spec's words\<close>

text \<open>
  The calls of the pre-step: engage the Terminator, then write the sentinel INVALID
  under the key of \<^verbatim>\<open>next_operation\<close> (whether the store keeps it is in its reply). \<open>reset_precedes_markers m cs\<close>: wherever the
  dispatch of an operation begins in the calls \<open>cs\<close>, the two calls right before it are
  the pre-step if the operation has source extents, and the call right before it (if
  any) is not the reset if it has none.
\<close>

definition reset_call :: call where
  "reset_call = SetInt64 kPrefsUpdateStateNextOperation kUpdateStateOperationInvalid"

definition is_marker :: "call \<Rightarrow> bool" where
  "is_marker c = (case c of BeginOperation n \<Rightarrow> True | _ \<Rightarrow> False)"

text \<open>
  \<open>extends_unmarked cs cs'\<close>: the call history \<open>cs'\<close> is \<open>cs\<close> followed by calls of the
  program, none of them the mark of a dispatch.
\<close>

definition extends_unmarked :: "call list \<Rightarrow> call list \<Rightarrow> bool" where
  "extends_unmarked cs cs' = (\<exists>new. cs' = cs @ new \<and> (\<forall>c\<in>set new. \<not> is_marker c))"

definition reset_precedes_markers :: "DeltaArchiveManifest \<Rightarrow> call list \<Rightarrow> bool" where
  "reset_precedes_markers m cs =
     (\<forall>pre n post. cs = pre @ BeginOperation n # post \<longrightarrow>
        (src_extents (operation_at m n) \<noteq> [] \<longrightarrow>
           (\<exists>pre'. pre = pre' @ [set_exit_blocked True, reset_call]))
        \<and> (src_extents (operation_at m n) = [] \<longrightarrow>
              pre = [] \<or> last pre \<noteq> reset_call))"

text \<open>
  A manifest with a MOVE followed by a REPLACE, on blocks of two bytes, and the calls of
  a \<^verbatim>\<open>Write\<close> of its whole payload up to the dispatch of the MOVE, between the two
  dispatches, and after the dispatch of the REPLACE.
\<close>

definition move_replace_manifest :: DeltaArchiveManifest where
  "move_replace_manifest = (manifest_of [move_op, replace_op 0 2])\<lparr>block_size := 2\<rparr>"

definition calls_before_move :: "call list" where
  "calls_before_move =
     [SetInt64 kPrefsManifestMetadataSize 20,
      set_exit_blocked True,
      SetInt64 kPrefsUpdateStateNextOperation (- 1)]"

definition calls_of_move :: "call list" where
  "calls_of_move =
     [PReadAll (- 1) 2 0,
      PWriteAll (- 1) [0, 0] 2,
      set_exit_blocked True,
      SetInt64 kPrefsUpdateStateNextOperation (- 1),
      SetString kPrefsUpdateStateSHA256Context (payload_prefix ''CrAU''),
      SetInt64 kPrefsUpdateStateNextDataOffset 0,
      SetInt64 kPrefsUpdateStateNextOperation 1,
      ScopedTerminatorExitUnblocker_dtor]"

definition calls_of_replace :: "call list" where
  "calls_of_replace =
     [Writer_Init REPLACE (- 1) [\<lparr>start_block = 0, num_blocks = 1\<rparr>] 2,
      Writer_Write [7, 9],
      Writer_End,
      set_exit_blocked True,
      SetInt64 kPrefsUpdateStateNextOperation (- 1),
      SetString kPrefsUpdateStateSHA256Context (payload_prefix ''CrAU'' @ [7, 9]),
      SetInt64 kPrefsUpdateStateNextDataOffset 2,
      SetInt64 kPrefsUpdateStateNextOperation 2,
      ScopedTerminatorExitUnblocker_dtor]"

text \<open>A manifest of one MOVE, from block 0 to block 1, on blocks of two bytes.\<close>

definition single_move_manifest :: DeltaArchiveManifest where
  "single_move_manifest = (manifest_of [move_op])\<lparr>block_size := 2\<rparr>"

text \<open>
  The coverage of the hash, for a stream of payload bytes handed to \<^verbatim>\<open>Write\<close> so far:
  the bytes absorbed followed by those still in the buffer are the stream, and the
  number absorbed is \<^verbatim>\<open>manifest_metadata_size_ + buffer_offset_\<close>. Before the manifest
  is parsed its size is still the 0 of the constructor.
\<close>

definition hash_covers :: "DeltaPerformer \<Rightarrow> byte list \<Rightarrow> bool" where
  "hash_covers s stream \<longleftrightarrow>
     absorbed (hash_calculator_' s) @ buffer_' s = stream
     \<and> length (absorbed (hash_calculator_' s))
         = unat (manifest_metadata_size_' s) + unat (buffer_offset_' s)
     \<and> (manifest_valid_' s \<or> manifest_metadata_size_' s = 0)"

text \<open>
  The first statement of \<^verbatim>\<open>Write\<close>, \<^verbatim>\<open>buffer_.insert(buffer_.end(), c_bytes, c_bytes + count)\<close>,
  on its own: the state with more bytes at the end of the buffer.
\<close>

definition buffer_insert_end :: "DeltaPerformer \<Rightarrow> byte list \<Rightarrow> DeltaPerformer" where
  "buffer_insert_end s bytes = s\<lparr>buffer_' := buffer_' s @ bytes\<rparr>"

text \<open>
  What a single \<^verbatim>\<open>Write\<close> of \<open>n\<close> bytes returns when the chunked run ended with \<open>r\<close>.
\<close>

definition single_result :: "int result option \<Rightarrow> nat \<Rightarrow> int result" where
  "single_result r n = (case r of None \<Rightarrow> Returned (int n) | Some x \<Rightarrow> x)"

text \<open>
  The blob of the operation is in the buffer, or it is not even with the bytes added:
  the \<^verbatim>\<open>CHECK_GE\<close> on the size of the buffer has the same outcome either way.
\<close>

definition same_check :: "DeltaPerformer \<Rightarrow> InstallOperation \<Rightarrow> byte list \<Rightarrow> bool" where
  "same_check s op X \<longleftrightarrow>
     (buffer_offset_' s = data_offset op \<longrightarrow>
        unat (data_length op) \<le> length (buffer_' s)
        \<or> length (buffer_' s) + length X < unat (data_length op))"


text \<open>
  The value of \<^verbatim>\<open>buffer_offset_ + buffer_.size()\<close> of \<^verbatim>\<open>CanPerformInstallOperation\<close>,
  before it is reduced modulo \<open>2 ^ 64\<close>.
\<close>

definition buffered_end :: "DeltaPerformer \<Rightarrow> nat" where
  "buffered_end s = unat (buffer_offset_' s) + length (buffer_' s)"

text \<open>
  The end of \<^verbatim>\<open>Write\<close>: a \<^verbatim>\<open>return\<close> inside the loop, or \<^verbatim>\<open>return count\<close> after it. The host
  takes a result for accepted when \<^verbatim>\<open>Write\<close> returned and the value is not negative;
  \<open>with_count\<close> is an accepted result for a longer run of bytes.
\<close>

definition return_count :: "int \<Rightarrow> int result option \<times> DeltaPerformer \<Rightarrow> int result \<times> DeltaPerformer" where
  "return_count count x = (case x of (Some r, s) \<Rightarrow> (r, s) | (None, s) \<Rightarrow> (Returned count, s))"

definition accepted :: "int result \<Rightarrow> bool" where
  "accepted r = (case r of Returned n \<Rightarrow> 0 \<le> n | Aborted \<Rightarrow> False)"

definition with_count :: "nat \<Rightarrow> int result \<Rightarrow> int result" where
  "with_count n r = (if accepted r then Returned (int n) else r)"

text \<open>
  A writer whose \<^verbatim>\<open>Init\<close> fails the first time it is called with given arguments and
  succeeds when called again with them, and a manifest of two REPLACE operations on
  blocks of two bytes.
\<close>

definition flaky_writer_respond :: "call list \<Rightarrow> call \<Rightarrow> reply" where
  "flaky_writer_respond cs c =
     (case c of
        Writer_Init t fd extents bs \<Rightarrow>
          if Writer_Init t fd extents bs \<in> set cs then ok_reply else ok_reply\<lparr>r_ok := False\<rparr>
      | _ \<Rightarrow> stub_respond cs c)"

definition flaky_writer_env :: "DeltaArchiveManifest \<Rightarrow> env" where
  "flaky_writer_env m = (stub_env m)\<lparr>respond := flaky_writer_respond\<rparr>"

definition two_replace_manifest :: DeltaArchiveManifest where
  "two_replace_manifest = (manifest_of [replace_op 0 2, replace_op 2 1])\<lparr>block_size := 2\<rparr>"

section \<open>Properties of the patch positions\<close>

lemma of_char_digit_char: "d < 10 \<Longrightarrow> (of_char (digit_char d) :: nat) = 48 + d"
  by (simp add: digit_char_def)

lemma digit_char_not_comma: "d < 10 \<Longrightarrow> digit_char d \<noteq> CHR '',''"
proof
  assume d: "d < 10" and e: "digit_char d = CHR '',''"
  have "(of_char (digit_char d) :: nat) = 44" by (simp add: e)
  with of_char_digit_char [OF d] show False by simp
qed

lemma unat_lt_u64: "unat (w :: u64) < 18446744073709551616"
  using unsigned_less [of w, where ?'a = nat] by simp

lemma unat_step1:
  fixes len fl c :: u64
  assumes "len \<le> fl"
  shows "unat (len + min (fl - len) c) = min (unat fl) (unat len + unat c)"
proof -
  have a: "unat (fl - len) = unat fl - unat len"
    using assms by (simp add: unat_sub)
  have b: "unat (min (fl - len) c) = min (unat fl - unat len) (unat c)"
    using a by (simp add: min_def word_le_nat_alt)
  have le: "unat len \<le> unat fl" using assms by (simp add: word_le_nat_alt)
  have "unat (min (fl - len) c) \<le> unat fl - unat len" using b by simp
  then have c: "unat len + unat (min (fl - len) c) < 2 ^ 64"
    using le unat_lt_u64 [of fl] by simp
  have "unat (len + min (fl - len) c) = unat len + unat (min (fl - len) c)"
    using c by (simp add: unat_add_lem [THEN iffD1])
  also have "\<dots> = unat len + min (unat fl - unat len) (unat c)" by (simp only: b)
  also have "\<dots> = min (unat fl) (unat len + unat c)" using le by arith
  finally show ?thesis .
qed

lemma step_le:
  fixes len fl c :: u64
  assumes "len \<le> fl"
  shows "len + min (fl - len) c \<le> fl"
  using unat_step1 [OF assms, of c] by (simp add: word_le_nat_alt)

lemma loop_snd:
  "len \<le> fl \<Longrightarrow>
   unat (snd (positions_loop xs bs fl ret len)) = min (unat fl) (unat len + total_byte_capacity_u64 xs bs)"
proof (induction xs arbitrary: ret len)
  case Nil
  then show ?case by (simp add: total_byte_capacity_u64_def word_le_nat_alt)
next
  case (Cons x xs)
  let ?c = "num_blocks x * bs"
  have le: "len + min (fl - len) ?c \<le> fl" by (rule step_le [OF Cons.prems])
  show ?case
    using Cons.IH [OF le] unat_step1 [OF Cons.prems, of ?c]
    by (simp add: total_byte_capacity_u64_def Let_def min_def)
qed

lemma loop_fst:
  "fst (positions_loop xs bs fl ret len) =
     ret @ concat (map (\<lambda>f. field_text f @ '','') (emitted_fields xs bs fl len))"
  by (induction xs arbitrary: ret len)
     (simp_all add: Let_def StringPrintf_position_def PRIi64_def PRIu64_def field_text_def dec_int_def)


lemma last_render: "fs \<noteq> [] \<Longrightarrow> concat (map (\<lambda>f. field_text f @ '','') fs) = render_positions fs @ '',''"
  by (induction fs rule: render_positions.induct) simp_all

lemma dec_nat_nonempty: "dec_nat n \<noteq> []"
  by (subst dec_nat.simps) simp

lemma last_dec_nat: "last (dec_nat n) = digit_char (n mod 10)"
  by (subst dec_nat.simps) simp

lemma last_field_text: "last (field_text f) \<noteq> CHR '',''"
  by (simp add: field_text_def dec_nat_nonempty last_dec_nat digit_char_not_comma)

lemma field_text_nonempty: "field_text f \<noteq> []"
  by (simp add: field_text_def)

lemma render_nonempty: "fs \<noteq> [] \<Longrightarrow> render_positions fs \<noteq> []"
  by (induction fs rule: render_positions.induct) (simp_all add: field_text_nonempty)

lemma last_render_positions: "fs \<noteq> [] \<Longrightarrow> last (render_positions fs) \<noteq> CHR '',''"
  by (induction fs rule: render_positions.induct) (simp_all add: last_field_text render_nonempty)

lemma emitted_sum:
  "len \<le> fl \<Longrightarrow>
   unat len + sum_list (map snd (emitted_fields xs bs fl len)) = unat (snd (positions_loop xs bs fl ret len))"
proof (induction xs arbitrary: ret len)
  case Nil
  then show ?case by simp
next
  case (Cons x xs)
  let ?c = "num_blocks x * bs"
  have le: "len + min (fl - len) ?c \<le> fl" by (rule step_le [OF Cons.prems])
  have "unat (len + min (fl - len) ?c) = unat len + unat (min (fl - len) ?c)"
    using unat_step1 [OF Cons.prems, of ?c] Cons.prems
    by (simp add: min_def word_le_nat_alt unat_sub split: if_splits)
  then show ?case
    using Cons.IH [OF le, of "ret @ StringPrintf_position (if start_block x = kSparseHole then - 1 else start_block x * bs) (min (fl - len) ?c)"]
    by (simp add: Let_def)
qed

lemma emitted_starts:
  "map fst (emitted_fields xs bs fl len) =
     map (\<lambda>e. if start_block e = kSparseHole then - 1 else sint (start_block e * bs)) xs"
  by (induction xs arbitrary: len) (simp_all add: Let_def)

lemma emitted_length: "length (emitted_fields xs bs fl len) = length xs"
  by (induction xs arbitrary: len) (simp_all add: Let_def)

lemma capacity_no_overflow:
  "\<forall>e\<in>set xs. unat (num_blocks e) * unat bs < 2 ^ 64 \<Longrightarrow>
   total_byte_capacity_u64 xs bs = total_byte_capacity xs bs"
  by (induction xs)
     (simp_all add: total_byte_capacity_u64_def total_byte_capacity_def unat_mult_lem [THEN iffD1])

lemma positions_loop_result:
  "positions_loop xs bs fl [] 0 =
     (concat (map (\<lambda>f. field_text f @ '','') (emitted_fields xs bs fl 0)),
      snd (positions_loop xs bs fl [] 0))"
  using loop_fst [of xs bs fl "[]" 0] by (cases "positions_loop xs bs fl [] 0") simp

lemma positions_some_iff:
  "ExtentsToBsdiffPositionsString xs bs fl \<noteq> None \<longleftrightarrow> unat fl \<le> total_byte_capacity_u64 xs bs"
proof -
  have "unat (snd (positions_loop xs bs fl [] 0)) = min (unat fl) (total_byte_capacity_u64 xs bs)"
    using loop_snd [of 0 fl xs bs "[]"] by simp
  moreover have "snd (positions_loop xs bs fl [] 0) = fl \<longleftrightarrow>
      unat (snd (positions_loop xs bs fl [] 0)) = unat fl"
    by (simp add: word_unat_eq_iff)
  ultimately show ?thesis
    by (cases "positions_loop xs bs fl [] 0") (auto simp: ExtentsToBsdiffPositionsString_def)
qed

lemma positions_some_string:
  assumes "ExtentsToBsdiffPositionsString xs bs fl = Some s"
  shows "s = render_positions (emitted_fields xs bs fl 0)"
proof (cases "emitted_fields xs bs fl 0 = []")
  case True
  then show ?thesis
    using assms positions_loop_result [of xs bs fl]
    by (cases "positions_loop xs bs fl [] 0")
       (auto simp: ExtentsToBsdiffPositionsString_def split: if_splits)
next
  case False
  then show ?thesis
    using assms positions_loop_result [of xs bs fl] last_render [OF False]
    by (cases "positions_loop xs bs fl [] 0")
       (auto simp: ExtentsToBsdiffPositionsString_def butlast_append split: if_splits)
qed

lemma positions_some_sum:
  assumes "ExtentsToBsdiffPositionsString xs bs fl = Some s"
  shows "sum_list (map snd (emitted_fields xs bs fl 0)) = unat fl"
proof -
  have "snd (positions_loop xs bs fl [] 0) = fl"
    using assms by (auto simp: ExtentsToBsdiffPositionsString_def split: prod.splits if_splits)
  then show ?thesis using emitted_sum [of 0 fl xs bs "[]"] by simp
qed

text \<open>
  Claim C6 (amended). \<^verbatim>\<open>ExtentsToBsdiffPositionsString\<close> succeeds if and only if
  \<^verbatim>\<open>full_length\<close> is at most the sum of the extents' byte capacities, each capacity being
  the product \<^verbatim>\<open>num_blocks * block_size\<close> as the program computes it in 64-bit unsigned
  arithmetic. On success the printed length fields sum to exactly \<^verbatim>\<open>full_length\<close>, a
  sparse-hole extent is printed with start \<open>-1\<close>, every other extent with the signed
  64-bit value of \<^verbatim>\<open>start_block * block_size\<close>, the string is the comma-separated list
  of the fields and does not end in a comma. When no product \<^verbatim>\<open>num_blocks * block_size\<close>
  overflows, the sum of the capacities is the extents' total byte capacity.
\<close>

theorem positions_string_correct:
  "(ExtentsToBsdiffPositionsString xs bs fl \<noteq> None \<longleftrightarrow>
      unat fl \<le> total_byte_capacity_u64 xs bs)
   \<and> (\<forall>s. ExtentsToBsdiffPositionsString xs bs fl = Some s \<longrightarrow>
          s = render_positions (emitted_fields xs bs fl 0)
        \<and> sum_list (map snd (emitted_fields xs bs fl 0)) = unat fl
        \<and> map fst (emitted_fields xs bs fl 0) =
            map (\<lambda>e. if start_block e = kSparseHole then - 1
                      else sint (start_block e * bs)) xs
        \<and> (s \<noteq> [] \<longrightarrow> last s \<noteq> CHR '',''))
   \<and> ((\<forall>e\<in>set xs. unat (num_blocks e) * unat bs < 2 ^ 64) \<longrightarrow>
          total_byte_capacity_u64 xs bs = total_byte_capacity xs bs)"
proof (intro conjI allI impI)
  show "ExtentsToBsdiffPositionsString xs bs fl \<noteq> None \<longleftrightarrow>
      unat fl \<le> total_byte_capacity_u64 xs bs"
    by (rule positions_some_iff)
next
  fix s assume s: "ExtentsToBsdiffPositionsString xs bs fl = Some s"
  show r: "s = render_positions (emitted_fields xs bs fl 0)"
    by (rule positions_some_string [OF s])
  show "sum_list (map snd (emitted_fields xs bs fl 0)) = unat fl"
    by (rule positions_some_sum [OF s])
  show "map fst (emitted_fields xs bs fl 0) =
            map (\<lambda>e. if start_block e = kSparseHole then - 1
                      else sint (start_block e * bs)) xs"
    by (rule emitted_starts)
  assume "s \<noteq> []"
  then have "emitted_fields xs bs fl 0 \<noteq> []"
    using r by auto
  then show "last s \<noteq> CHR '',''"
    unfolding r by (rule last_render_positions)
next
  assume "\<forall>e\<in>set xs. unat (num_blocks e) * unat bs < 2 ^ 64"
  then show "total_byte_capacity_u64 xs bs = total_byte_capacity xs bs"
    by (rule capacity_no_overflow)
qed

text \<open>
  The theorem at a concrete input: two blocks at block 3 and a sparse hole, 10000 bytes.
\<close>

theorem positions_string_correct_witness:
  "ExtentsToBsdiffPositionsString
     [\<lparr>start_block = 3, num_blocks = 2\<rparr>, \<lparr>start_block = kSparseHole, num_blocks = 2\<rparr>] 4096 10000
     = Some ''12288:8192,-1:1808''
   \<and> emitted_fields
     [\<lparr>start_block = 3, num_blocks = 2\<rparr>, \<lparr>start_block = kSparseHole, num_blocks = 2\<rparr>] 4096 10000 0
     = [(12288, 8192), (- 1, 1808)]
   \<and> unat (10000 :: u64) \<le> total_byte_capacity
     [\<lparr>start_block = 3, num_blocks = 2\<rparr>, \<lparr>start_block = kSparseHole, num_blocks = 2\<rparr>] 4096
   \<and> last ''12288:8192,-1:1808'' \<noteq> CHR '',''"
  using positions_string_correct
    [of "[\<lparr>start_block = 3, num_blocks = 2\<rparr>, \<lparr>start_block = kSparseHole, num_blocks = 2\<rparr>]" 4096 10000]
  by (simp add: ExtentsToBsdiffPositionsString_def StringPrintf_position_def PRIi64_def PRIu64_def
      kSparseHole_def dec_nat.simps digit_char_def total_byte_capacity_def total_byte_capacity_u64_def
      field_text_def dec_int_def char_of_def bit_Suc_0_iff)

text \<open>
  Claim C6 as stated fails where a product overflows: one extent of \<open>2 ^ 52\<close> blocks of
  4096 bytes holds \<open>2 ^ 64\<close> bytes, the program computes its capacity as 0 and rejects
  a \<^verbatim>\<open>full_length\<close> of one byte.
\<close>

theorem positions_capacity_counterexample:
  "\<not> (ExtentsToBsdiffPositionsString [\<lparr>start_block = 0, num_blocks = 2 ^ 52\<rparr>] 4096 1 \<noteq> None
       \<longleftrightarrow> unat (1 :: u64) \<le> total_byte_capacity [\<lparr>start_block = 0, num_blocks = 2 ^ 52\<rparr>] 4096)"
  by (simp add: ExtentsToBsdiffPositionsString_def StringPrintf_position_def
      kSparseHole_def total_byte_capacity_def)



section \<open>Properties of \<^verbatim>\<open>Open\<close> and \<^verbatim>\<open>Close\<close>\<close>

lemma Open_after_Close:
  "fd_' t = - 2 \<Longrightarrow> Open e t path = (- EINVAL, t)"
  by (simp add: Open_def OpenFile_def)

lemma Close_nonempty: "buffer_' s \<noteq> [] \<Longrightarrow> Close e s = (- 1, s)"
  by (simp add: Close_def)

lemma Close_empty:
  assumes "buffer_' s = []"
  shows "calls_' (snd (Close e s)) = calls_' s @ [sys_close (kernel_fd_' s), sys_close (fd_' s)]"
    and "finalized (hash_calculator_' (snd (Close e s)))"
    and "fd_' (snd (Close e s)) = - 2"
    and "path_' (snd (Close e s)) = []"
  using assms by (simp_all add: Close_def do_call_eq Let_def hash_Finalize_def)

lemma Close_fd: "fd_' t = - 2 \<Longrightarrow> fd_' (snd (Close e t)) = - 2"
  by (simp add: Close_def do_call_eq Let_def)

lemma OpenKernel_fd: "fd_' (snd (OpenKernel e t p)) = fd_' t"
  by (simp add: OpenKernel_def OpenFile_def do_call_eq)

lemma Write_loop_inv:
  assumes "I s"
    and "\<And>s. I s \<Longrightarrow> next_operation_num_' s < total_operations s \<Longrightarrow>
        CanPerformInstallOperation s (next_operation s) \<Longrightarrow>
        I (snd (Write_step e s (next_operation s)))"
  shows "I (snd (Write_loop e s))"
  using assms
proof (induction e s rule: Write_loop.induct)
  case (1 e s)
  note step = "1.prems"(2)
  show ?case
  proof (cases "next_operation_num_' s < total_operations s
      \<and> CanPerformInstallOperation s (next_operation s)")
    case False
    then show ?thesis using "1.prems"(1) by (subst Write_loop.simps) auto
  next
    case True
    obtain r s' where ws: "Write_step e s (next_operation s) = (r, s')"
      by (cases "Write_step e s (next_operation s)")
    have "I (snd (Write_step e s (next_operation s)))"
      using step [OF "1.prems"(1)] True by simp
    then have I': "I s'" by (simp add: ws)
    show ?thesis
    proof (cases r)
      case None
      have "I (snd (Write_loop e s'))"
        using "1.IH" [of r s'] True ws None I' step by simp
      then show ?thesis using True ws None by (subst Write_loop.simps) simp
    next
      case (Some a)
      then show ?thesis using True ws I' by (subst Write_loop.simps) simp
    qed
  qed
qed

lemma Write_loop_fd: "fd_' (snd (Write_loop e s)) = fd_' s"
  by (rule Write_loop_inv [where I = "\<lambda>t. fd_' t = fd_' s"]) (simp_all add: Write_step_fields)

lemma Write_manifest_fd: "fd_' (snd (Write_manifest e s n)) = fd_' s"
  by (simp add: Write_manifest_def Let_def split_beta DiscardBufferHeadBytes_def do_call_eq)

lemma Write_fd: "fd_' (snd (Write e s bytes)) = fd_' s"
proof -
  have "fd_' (snd (Write_loop e (snd (Write_manifest e (s\<lparr>buffer_' := buffer_' s @ bytes\<rparr>)
          (int (length bytes)))))) = fd_' s"
    by (simp add: Write_loop_fd Write_manifest_fd)
  moreover have "fd_' (snd (Write_loop e (s\<lparr>buffer_' := buffer_' s @ bytes\<rparr>))) = fd_' s"
    by (simp add: Write_loop_fd)
  ultimately show ?thesis
    using Write_manifest_fd [of e "s\<lparr>buffer_' := buffer_' s @ bytes\<rparr>" "int (length bytes)"]
    by (simp add: Write_def Let_def split_beta split: option.splits)
qed

text \<open>
  Claim C10. \<^verbatim>\<open>Close\<close> with a non-empty buffer returns \<open>-1\<close> and leaves the applier as it
  was: no call is issued, so neither descriptor is closed, the hash calculator is not
  finalized and no field changes. With an empty buffer \<^verbatim>\<open>Close\<close> issues \<^verbatim>\<open>close\<close> on the
  kernel descriptor and on the rootfs descriptor, finalizes the hash calculator, sets
  \<^verbatim>\<open>fd_\<close> to \<open>-2\<close> and clears \<^verbatim>\<open>path_\<close>. While \<^verbatim>\<open>fd_\<close> is \<open>-2\<close> every \<^verbatim>\<open>Open\<close> returns the
  negative \<open>-EINVAL\<close> and changes nothing, and \<^verbatim>\<open>Write\<close>, \<^verbatim>\<open>OpenKernel\<close> and \<^verbatim>\<open>Close\<close> keep
  \<^verbatim>\<open>fd_\<close> at \<open>-2\<close>: every later \<^verbatim>\<open>Open\<close> fails.
\<close>

theorem Close_atomic:
  "(buffer_' s \<noteq> [] \<longrightarrow> Close e s = (- 1, s))
   \<and> (buffer_' s = [] \<longrightarrow>
         calls_' (snd (Close e s)) = calls_' s @ [sys_close (kernel_fd_' s), sys_close (fd_' s)]
       \<and> finalized (hash_calculator_' (snd (Close e s)))
       \<and> fd_' (snd (Close e s)) = - 2
       \<and> path_' (snd (Close e s)) = [])
   \<and> (fd_' t = - 2 \<longrightarrow>
         fst (Open e t path) < 0 \<and> snd (Open e t path) = t
       \<and> fd_' (snd (Write e t bytes)) = - 2
       \<and> fd_' (snd (OpenKernel e t path)) = - 2
       \<and> fd_' (snd (Close e t)) = - 2)"
proof (intro conjI impI)
  assume "buffer_' s \<noteq> []"
  then show "Close e s = (- 1, s)" by (rule Close_nonempty)
next
  assume b: "buffer_' s = []"
  show "calls_' (snd (Close e s)) = calls_' s @ [sys_close (kernel_fd_' s), sys_close (fd_' s)]"
    and "finalized (hash_calculator_' (snd (Close e s)))"
    and "fd_' (snd (Close e s)) = - 2"
    and "path_' (snd (Close e s)) = []"
    by (rule Close_empty [OF b])+
next
  assume t: "fd_' t = - 2"
  show "fst (Open e t path) < 0" "snd (Open e t path) = t"
    by (simp_all add: Open_after_Close [OF t] EINVAL_def)
  show "fd_' (snd (Write e t bytes)) = - 2" by (simp add: Write_fd t)
  show "fd_' (snd (OpenKernel e t path)) = - 2" by (simp add: OpenKernel_fd t)
  show "fd_' (snd (Close e t)) = - 2" by (rule Close_fd [OF t])
qed

text \<open>
  The theorem on a new applier whose buffer holds one byte, and on a new applier with
  an empty buffer followed by an \<^verbatim>\<open>Open\<close>.
\<close>

theorem Close_atomic_witness:
  "buffer_' (new_performer\<lparr>buffer_' := [1]\<rparr>) \<noteq> []
   \<and> Close (stub_env empty_manifest) (new_performer\<lparr>buffer_' := [1]\<rparr>)
       = (- 1, new_performer\<lparr>buffer_' := [1]\<rparr>)
   \<and> buffer_' new_performer = []
   \<and> calls_' (snd (Close (stub_env empty_manifest) new_performer)) = [sys_close (- 1), sys_close (- 1)]
   \<and> fd_' (snd (Close (stub_env empty_manifest) new_performer)) = - 2
   \<and> fst (Open (stub_env empty_manifest) (snd (Close (stub_env empty_manifest) new_performer))
            ''/dev/sda3'') < 0"
  using Close_atomic [of "new_performer\<lparr>buffer_' := [1]\<rparr>" "stub_env empty_manifest"
      "snd (Close (stub_env empty_manifest) new_performer)" "''/dev/sda3''" "[]"]
    Close_atomic [of new_performer "stub_env empty_manifest"
      "snd (Close (stub_env empty_manifest) new_performer)" "''/dev/sda3''" "[]"]
  by (simp add: new_performer_def)

section \<open>Properties of \<^verbatim>\<open>VerifyPayload\<close>\<close>

text \<open>
  Claim C7 (amended). If the public key file does not exist, \<^verbatim>\<open>VerifyPayload\<close> returns
  true if and only if the accumulated download hash is not empty, equals the expected
  hash, and the expected size equals \<^verbatim>\<open>manifest_metadata_size_ + buffer_offset_\<close> (a 64-bit
  sum). The three checks come before the check for the key: a hash or a size that does
  not match gives false whether or not the key exists.
\<close>

theorem VerifyPayload_missing_key:
  "(\<not> r_ok (respond e (calls_' s)
            (FileExists (if key = [] then kUpdatePayloadPublicKeyPath else key))) \<longrightarrow>
      (VerifyPayload e s key h n \<longleftrightarrow>
         hash_hash e (hash_calculator_' s) \<noteq> []
       \<and> hash_hash e (hash_calculator_' s) = h
       \<and> n = manifest_metadata_size_' s + buffer_offset_' s))
   \<and> (hash_hash e (hash_calculator_' s) \<noteq> h \<or> n \<noteq> manifest_metadata_size_' s + buffer_offset_' s
        \<longrightarrow> \<not> VerifyPayload e s key h n)"
  by (simp add: VerifyPayload_def Let_def)

text \<open>
  The theorem on an applier that has consumed 30 bytes and was closed, in a world
  without the key file: the payload is accepted for the matching hash and size, and
  rejected for another size.
\<close>

theorem VerifyPayload_missing_key_witness:
  "\<not> r_ok (respond (no_key_env empty_manifest)
         (calls_' (new_performer\<lparr>manifest_metadata_size_' := 20, buffer_offset_' := 10,
                   hash_calculator_' := \<lparr>absorbed = [], finalized = True\<rparr>\<rparr>))
         (FileExists kUpdatePayloadPublicKeyPath))
   \<and> VerifyPayload (no_key_env empty_manifest)
        (new_performer\<lparr>manifest_metadata_size_' := 20, buffer_offset_' := 10,
           hash_calculator_' := \<lparr>absorbed = [], finalized = True\<rparr>\<rparr>) [] ''digest'' 30
   \<and> \<not> VerifyPayload (no_key_env empty_manifest)
        (new_performer\<lparr>manifest_metadata_size_' := 20, buffer_offset_' := 10,
           hash_calculator_' := \<lparr>absorbed = [], finalized = True\<rparr>\<rparr>) [] ''digest'' 31"
  using VerifyPayload_missing_key [of "no_key_env empty_manifest"
      "new_performer\<lparr>manifest_metadata_size_' := 20, buffer_offset_' := 10,
         hash_calculator_' := \<lparr>absorbed = [], finalized = True\<rparr>\<rparr>" "[]" "''digest''" 30]
    VerifyPayload_missing_key [of "no_key_env empty_manifest"
      "new_performer\<lparr>manifest_metadata_size_' := 20, buffer_offset_' := 10,
         hash_calculator_' := \<lparr>absorbed = [], finalized = True\<rparr>\<rparr>" "[]" "''digest''" 31]
  by (simp add: no_key_env_def stub_env_def no_key_respond_def ok_reply_def hash_hash_def
      new_performer_def)

text \<open>
  Claim C7 as stated fails when the hash calculator was never finalized: its hash is
  the empty string, which equals an empty expected hash, the size matches and the key is
  missing, yet \<^verbatim>\<open>VerifyPayload\<close> returns false.
\<close>

theorem VerifyPayload_empty_hash_counterexample:
  "\<not> r_ok (respond (no_key_env empty_manifest) (calls_' new_performer)
         (FileExists kUpdatePayloadPublicKeyPath))
   \<and> hash_hash (no_key_env empty_manifest) (hash_calculator_' new_performer) = []
   \<and> (0 :: u64) = manifest_metadata_size_' new_performer + buffer_offset_' new_performer
   \<and> \<not> VerifyPayload (no_key_env empty_manifest) new_performer [] [] 0"
  by (simp add: VerifyPayload_def Let_def no_key_env_def stub_env_def no_key_respond_def
      ok_reply_def hash_hash_def new_performer_def)

section \<open>Properties of \<^verbatim>\<open>Write\<close>: the prefix\<close>

lemma Write_loop_valid: "manifest_valid_' (snd (Write_loop e s)) = manifest_valid_' s"
  by (rule Write_loop_inv [where I = "\<lambda>t. manifest_valid_' t = manifest_valid_' s"])
     (simp_all add: Write_step_fields)

lemma Write_manifest_cases:
  "Write_manifest e s count =
     (if \<not> prefix_complete (buffer_' s) then (Some (Returned count), s)
      else
        let size = sint (ucast (protobuf_length_of (buffer_' s)) :: 32 word);
            m = fst (ParseFromArray e (take (nat size) (drop 20 (buffer_' s))) size);
            msz = 20 + protobuf_length_of (buffer_' s)
        in if manifest_rejected e (buffer_' s)
           then (Some (Returned (- EINVAL)), s\<lparr>manifest_' := m\<rparr>)
           else (None,
                 (emit (SetInt64 kPrefsManifestMetadataSize (sint msz))
                    (DiscardBufferHeadBytes (unat msz)
                       (s\<lparr>manifest_' := m, manifest_metadata_size_' := msz\<rparr>)))
                 \<lparr>manifest_valid_' := True, block_size_' := block_size m\<rparr>))"
  by (simp add: Write_manifest_def prefix_complete_def manifest_rejected_def
      protobuf_length_of_def kDeltaMagic_def kDeltaVersionLength_def
      kDeltaProtobufLengthLength_def Let_def split_beta not_less do_call_eq
      DiscardBufferHeadBytes_def)

lemma Write_manifest_valid:
  "fst (Write_manifest e s count) = None \<Longrightarrow> manifest_valid_' (snd (Write_manifest e s count))"
  by (simp add: Write_manifest_def Let_def split_beta split: if_splits)

lemma Write_parse_error:
  assumes "\<not> manifest_valid_' s"
  shows "(fst (Write e s bytes) = Returned (- EINVAL) \<and> \<not> manifest_valid_' (snd (Write e s bytes)))
     \<longleftrightarrow> (prefix_complete (buffer_' s @ bytes) \<and> manifest_rejected e (buffer_' s @ bytes))"
proof -
  let ?s0 = "s\<lparr>buffer_' := buffer_' s @ bytes\<rparr>"
  let ?n = "int (length bytes)"
  have w: "Write e s bytes =
      (case Write_manifest e ?s0 ?n of
         (Some r, s1) \<Rightarrow> (r, s1)
       | (None, s1) \<Rightarrow>
           (case Write_loop e s1 of (Some r, s2) \<Rightarrow> (r, s2) | (None, s2) \<Rightarrow> (Returned ?n, s2)))"
    using assms by (simp add: Write_def Let_def)
  show ?thesis
  proof (cases "prefix_complete (buffer_' ?s0)")
    case False
    then show ?thesis
      using assms by (simp add: w Write_manifest_cases [of e ?s0 ?n] EINVAL_def Let_def)
  next
    case True
    show ?thesis
    proof (cases "manifest_rejected e (buffer_' ?s0)")
      case True
      with \<open>prefix_complete (buffer_' ?s0)\<close> show ?thesis
        using assms by (simp add: w Write_manifest_cases [of e ?s0 ?n] Let_def)
    next
      case False
      have n: "fst (Write_manifest e ?s0 ?n) = None"
        using True False by (simp add: Write_manifest_cases [of e ?s0 ?n] Let_def)
      have "manifest_valid_' (snd (Write e s bytes))"
        using n Write_manifest_valid [OF n]
        by (simp add: w split_beta Write_loop_valid split: option.splits)
      then show ?thesis using True False by simp
    qed
  qed
qed

lemma prefix_tag_independent:
  assumes "length tag = 4" "length tag' = 4"
  shows "prefix_complete (tag @ rest) = prefix_complete (tag' @ rest)"
    and "manifest_rejected e (tag @ rest) = manifest_rejected e (tag' @ rest)"
  using assms
  by (simp_all add: prefix_complete_def manifest_rejected_def protobuf_length_of_def)


lemmas run_simps =
  Write_def Write_manifest_def Write_loop.simps Write_step_def dispatch_def
  reset_if_not_idempotent_def IsIdempotentOperation_def
  PerformReplaceOperation_def PerformMoveOperation_def PerformBsdiffOperation_def
  ExtractSignatureMessage_def CheckpointUpdateProgress_def ResetUpdateProgress_def
  CanPerformInstallOperation_def DiscardBufferHeadBytes_def writer_calls_def move_calls_def
  do_call_eq emit_def next_operation_def operation_at_def total_operations_def
  hash_Update_def hash_GetContext_def be64toh_def
  kDeltaMagic_def kDeltaVersionLength_def kDeltaProtobufLengthLength_def EINVAL_def
  kUpdateStateOperationInvalid_def
  new_performer_def empty_manifest_def manifest_of_def replace_op_def move_op_def
  payload_prefix_def stub_env_def stub_respond_def failing_prefs_env_def
  failing_prefs_respond_def ok_reply_def Let_def



section \<open>Properties of \<^verbatim>\<open>Write\<close>: failures that are not reported\<close>

text \<open>
  A stream that has regressed: the next operation is not a MOVE and its data offset lies
  before \<^verbatim>\<open>buffer_offset_\<close>. \<^verbatim>\<open>CanPerformInstallOperation\<close> logs an error and returns
  false, the loop breaks, and \<^verbatim>\<open>Write\<close> returns the byte count having only appended the
  bytes to the buffer.
\<close>

lemma Write_regressed_stream:
  assumes "manifest_valid_' s" "next_operation_num_' s < total_operations s"
    and "op_type (next_operation s) \<noteq> MOVE"
    and "data_offset (next_operation s) < buffer_offset_' s"
  shows "Write e s bytes = (Returned (int (length bytes)), s\<lparr>buffer_' := buffer_' s @ bytes\<rparr>)"
proof -
  let ?s0 = "s\<lparr>buffer_' := buffer_' s @ bytes\<rparr>"
  have "next_operation ?s0 = next_operation s" "total_operations ?s0 = total_operations s"
    by (simp_all add: next_operation_def total_operations_def)
  then have "\<not> CanPerformInstallOperation ?s0 (next_operation ?s0)"
    using assms by (simp add: CanPerformInstallOperation_def)
  then have "Write_loop e ?s0 = (None, ?s0)"
    by (subst Write_loop.simps) simp
  then show ?thesis using assms by (simp add: Write_def Let_def)
qed

text \<open>
  Claim C3 on the program: two REPLACE operations whose data blobs overlap (offsets 0 and
  1, lengths 2 and 1). After the first operation \<^verbatim>\<open>buffer_offset_\<close> is 2, the second
  operation's data offset 1 lies before it, and \<^verbatim>\<open>Write\<close> returns the byte count 22.
\<close>

theorem Write_regression_returns_count:
  "fst (Write (stub_env (manifest_of [replace_op 0 2, replace_op 1 1])) new_performer
          (payload_prefix ''CrAU'' @ [7, 9])) = Returned 22
   \<and> next_operation_num_' (snd (Write (stub_env (manifest_of [replace_op 0 2, replace_op 1 1]))
          new_performer (payload_prefix ''CrAU'' @ [7, 9]))) = 1
   \<and> buffer_offset_' (snd (Write (stub_env (manifest_of [replace_op 0 2, replace_op 1 1]))
          new_performer (payload_prefix ''CrAU'' @ [7, 9]))) = 2
   \<and> data_offset (next_operation (snd (Write (stub_env (manifest_of [replace_op 0 2, replace_op 1 1]))
          new_performer (payload_prefix ''CrAU'' @ [7, 9])))) = 1"
  by (simp add: run_simps)

text \<open>
  Claim C2 on the program: every write to the preference store fails. The checkpoint
  after the REPLACE operation stops at the failed write of the SHA-256 context and
  \<^verbatim>\<open>CheckpointUpdateProgress\<close> returns false, yet \<^verbatim>\<open>Write\<close> returns the byte count 22.
\<close>

theorem Write_ignores_checkpoint_failure:
  "fst (Write (failing_prefs_env (manifest_of [replace_op 0 2])) new_performer
          (payload_prefix ''CrAU'' @ [7, 9])) = Returned 22
   \<and> calls_' (snd (Write (failing_prefs_env (manifest_of [replace_op 0 2])) new_performer
          (payload_prefix ''CrAU'' @ [7, 9]))) =
       [SetInt64 kPrefsManifestMetadataSize 20,
        BeginOperation 0,
        Writer_Init REPLACE (- 1) [\<lparr>start_block = 0, num_blocks = 1\<rparr>] 4096,
        Writer_Write [7, 9],
        Writer_End,
        set_exit_blocked True,
        SetInt64 kPrefsUpdateStateNextOperation (- 1),
        SetString kPrefsUpdateStateSHA256Context (payload_prefix ''CrAU'' @ [7, 9]),
        ScopedTerminatorExitUnblocker_dtor]
   \<and> \<not> r_ok (respond (failing_prefs_env (manifest_of [replace_op 0 2]))
         [SetInt64 kPrefsManifestMetadataSize 20,
          BeginOperation 0,
          Writer_Init REPLACE (- 1) [\<lparr>start_block = 0, num_blocks = 1\<rparr>] 4096,
          Writer_Write [7, 9],
          Writer_End,
          set_exit_blocked True,
          SetInt64 kPrefsUpdateStateNextOperation (- 1)]
         (SetString kPrefsUpdateStateSHA256Context (payload_prefix ''CrAU'' @ [7, 9])))"
  by (simp add: run_simps)

section \<open>Properties of \<^verbatim>\<open>PerformBsdiffOperation\<close>\<close>

lemma positions_zero_capacity:
  assumes "ExtentsToBsdiffPositionsString xs bs fl = Some p"
    and "bs = 0 \<or> xs = []"
  shows "fl = 0"
proof -
  have "unat fl \<le> total_byte_capacity_u64 xs bs"
    using positions_some_iff [of xs bs fl] assms(1) by simp
  moreover have "total_byte_capacity_u64 xs bs = 0"
    using assms(2) by (auto simp: total_byte_capacity_u64_def)
  ultimately show ?thesis by (simp add: unat_eq_0)
qed

lemma mod_block_size:
  fixes len bs :: u64
  assumes "bs \<noteq> 0"
  shows "(len mod bs \<noteq> 0) = (\<not> unat bs dvd unat len)"
proof -
  have "unat (len mod bs) = unat len mod unat bs" by (rule unat_mod)
  moreover have "(len mod bs = 0) = (unat (len mod bs) = 0)" by (simp add: unat_eq_0)
  ultimately show ?thesis by (simp add: dvd_eq_mod_eq_0)
qed

lemma bsdiff_calls_after_patch:
  assumes ok: "patch_tool_succeeded e cs path data inp outp"
    and out: "ExtentsToBsdiffPositionsString (dst_extents op) bs (dst_length op) = Some outp"
  shows "snd (bsdiff_calls e cs fd path bs op inp outp data) =
     cs @ patch_tool_calls e cs path data inp outp
        @ (if \<not> unat bs dvd unat (dst_length op)
           then [PWriteAll fd (replicate (unat (bs - dst_length op mod bs)) 0)
                   ((start_block (last (dst_extents op)) + num_blocks (last (dst_extents op))) * bs
                      - (bs - dst_length op mod bs))]
           else [])
        @ (if bs = 0 then [] else [ScopedPathUnlinker_dtor (temp_file_of e cs)])"
proof (cases "bs = 0")
  case True
  then have "dst_length op = 0" using positions_zero_capacity [OF out] by simp
  then show ?thesis
    using ok True
    by (simp add: bsdiff_calls_def patch_tool_succeeded_def patch_tool_calls_def temp_file_of_def
        Let_def)
next
  case False
  show ?thesis
  proof (cases "unat bs dvd unat (dst_length op)")
    case True
    then have "dst_length op mod bs = 0" using mod_block_size [OF False, of "dst_length op"] by simp
    then show ?thesis
      using ok False True
      by (simp add: bsdiff_calls_def patch_tool_succeeded_def patch_tool_calls_def
          temp_file_of_def Let_def)
  next
    case nd: False
    then have m: "dst_length op mod bs \<noteq> 0"
      using mod_block_size [OF False, of "dst_length op"] by simp
    have "dst_length op \<noteq> 0" using m by auto
    then have ne: "dst_extents op \<noteq> []" using positions_zero_capacity [OF out] by auto
    show ?thesis
      using ok False nd m ne
      by (simp add: bsdiff_calls_def patch_tool_succeeded_def patch_tool_calls_def
          temp_file_of_def Let_def)
  qed
qed



section \<open>Properties of \<^verbatim>\<open>Write\<close>: the reset before an operation that is not idempotent\<close>

lemma is_marker_simps [simp]:
  "is_marker (BeginOperation n)"
  "\<not> is_marker (SetInt64 k v)" "\<not> is_marker (SetString k b)" "\<not> is_marker (set_exit_blocked x)"
  "\<not> is_marker ScopedTerminatorExitUnblocker_dtor" "\<not> is_marker (Writer_Init t fd xs bs)"
  "\<not> is_marker (Writer_Write b)" "\<not> is_marker Writer_End" "\<not> is_marker (PReadAll fd w1 w2)"
  "\<not> is_marker (PWriteAll fd b w2)" "\<not> is_marker (MakeTempFile p)" "\<not> is_marker (open_temp p)"
  "\<not> is_marker (WriteAll fd b)" "\<not> is_marker (ScopedFdCloser_dtor fd)"
  "\<not> is_marker (ScopedPathUnlinker_dtor p)" "\<not> is_marker (SynchronousExec cmd)"
  "\<not> is_marker (sys_open p)" "\<not> is_marker (sys_close fd)" "\<not> is_marker (FileExists p)"
  by (simp_all add: is_marker_def)

lemma ext_refl [simp]: "extends_unmarked cs cs"
  by (simp add: extends_unmarked_def)

lemma ext_trans: "extends_unmarked a b \<Longrightarrow> extends_unmarked b c \<Longrightarrow> extends_unmarked a c"
  by (auto simp: extends_unmarked_def)

lemma ext_append: "\<forall>c\<in>set new. \<not> is_marker c \<Longrightarrow> extends_unmarked cs (cs @ new)"
  by (auto simp: extends_unmarked_def)

lemma ext_append': "extends_unmarked a b \<Longrightarrow> \<forall>c\<in>set new. \<not> is_marker c \<Longrightarrow> extends_unmarked a (b @ new)"
  by (auto simp: extends_unmarked_def)

lemma writer_calls_ext: "extends_unmarked cs (snd (writer_calls e cs t fd xs bs data))"
  by (simp add: writer_calls_def Let_def ext_append)

lemma move_read_ext: "extends_unmarked cs (fst (snd (move_read e fd bs xs cs buf n)))"
proof (induction xs arbitrary: cs buf n)
  case Nil
  then show ?case by simp
next
  case (Cons x xs)
  have s: "extends_unmarked cs (cs @ [PReadAll fd (num_blocks x * bs) (start_block x * bs)])"
    by (simp add: ext_append)
  show ?case
    using s ext_trans [OF s Cons.IH]
    by (simp add: Let_def)
qed

lemma move_write_ext: "extends_unmarked cs (snd (move_write e fd bs xs cs buf n))"
proof (induction xs arbitrary: cs n)
  case Nil
  then show ?case by simp
next
  case (Cons x xs)
  let ?c = "PWriteAll fd (take (unat (num_blocks x * bs)) (drop n buf)) (start_block x * bs)"
  have s: "extends_unmarked cs (cs @ [?c])"
    by (simp add: ext_append)
  show ?case
    using s ext_trans [OF s Cons.IH]
    by (simp add: Let_def)
qed

lemma move_calls_ext: "extends_unmarked cs (snd (move_calls e cs fd bs op))"
proof -
  let ?buf = "replicate (unat (sum_list (map num_blocks (dst_extents op)) * bs)) (0 :: byte)"
  obtain r cs1 buf' n where mr: "move_read e fd bs (src_extents op) cs ?buf 0 = (r, cs1, buf', n)"
    by (cases "move_read e fd bs (src_extents op) cs ?buf 0") auto
  have e1: "extends_unmarked cs cs1"
    using move_read_ext [of cs e fd bs "src_extents op" ?buf 0] by (simp add: mr)
  have e2: "extends_unmarked cs (snd (move_write e fd bs (dst_extents op) cs1 buf' 0))"
    by (rule ext_trans [OF e1 move_write_ext])
  show ?thesis
    using e1 e2 by (simp add: move_calls_def Let_def mr split: result.splits bool.splits)
qed

lemma bsdiff_calls_ext: "extends_unmarked cs (snd (bsdiff_calls e cs fd path bs op inp outp data))"
  by (simp add: bsdiff_calls_def Let_def ext_append)

lemma Extract_ext: "extends_unmarked (calls_' s) (calls_' (snd (ExtractSignatureMessage e s op)))"
  by (simp add: ExtractSignatureMessage_def Let_def do_call_eq ext_append)

lemma Replace_ext: "extends_unmarked (calls_' s) (calls_' (snd (PerformReplaceOperation e s op k)))"
proof -
  let ?s0 = "snd (ExtractSignatureMessage e s op)"
  have "extends_unmarked (calls_' s) (snd (writer_calls e (calls_' ?s0) t fd xs bs data))" for t fd xs bs data
    by (rule ext_trans [OF Extract_ext writer_calls_ext])
  then show ?thesis
    by (simp add: PerformReplaceOperation_def Let_def split_beta DiscardBufferHeadBytes_def
        split: bool.splits)
qed

lemma Move_ext: "extends_unmarked (calls_' s) (calls_' (snd (PerformMoveOperation e s op k)))"
  by (simp add: PerformMoveOperation_def Let_def split_beta move_calls_ext)

lemma Bsdiff_ext: "extends_unmarked (calls_' s) (calls_' (snd (PerformBsdiffOperation e s op k)))"
  by (simp add: PerformBsdiffOperation_def Let_def split_beta DiscardBufferHeadBytes_def
      bsdiff_calls_ext split: option.splits result.splits bool.splits)

lemma dispatch_ext: "extends_unmarked (calls_' s) (calls_' (snd (dispatch e s op k)))"
  by (simp add: dispatch_def Replace_ext Move_ext Bsdiff_ext)

lemma Checkpoint_ext: "extends_unmarked (calls_' s) (calls_' (snd (CheckpointUpdateProgress e s)))"
  by (simp add: CheckpointUpdateProgress_def Reset_eq do_call_eq Let_def ext_append)

lemma unmarked_no_split:
  assumes "\<forall>c\<in>set cs. \<not> is_marker c"
  shows "cs \<noteq> pre @ BeginOperation n # post"
  using assms by auto

lemma reset_precedes_unmarked:
  "\<forall>c\<in>set cs. \<not> is_marker c \<Longrightarrow> reset_precedes_markers m cs"
  unfolding reset_precedes_markers_def using unmarked_no_split by blast

lemma reset_precedes_append:
  assumes A: "reset_precedes_markers m A" and B: "reset_precedes_markers m B"
    and l: "A = [] \<or> last A \<noteq> reset_call"
  shows "reset_precedes_markers m (A @ B)"
  unfolding reset_precedes_markers_def
proof (intro allI impI)
  fix pre n post
  assume eq: "A @ B = pre @ BeginOperation n # post"
  then obtain vs where vs: "(A = pre @ vs \<and> vs @ B = BeginOperation n # post)
      \<or> (A @ vs = pre \<and> B = vs @ BeginOperation n # post)"
    by (auto simp: append_eq_append_conv2)
  have "(\<exists>us. pre = A @ us \<and> B = us @ BeginOperation n # post)
      \<or> (\<exists>us. A = pre @ us \<and> us \<noteq> [] \<and> us @ B = BeginOperation n # post)"
  proof (cases "vs = []")
    case True
    with vs have "pre = A @ [] \<and> B = [] @ BeginOperation n # post" by auto
    then show ?thesis by blast
  next
    case False
    with vs show ?thesis by auto
  qed
  then consider (inB) us where "pre = A @ us" "B = us @ BeginOperation n # post"
    | (inA) us where "A = pre @ us" "us \<noteq> []" "us @ B = BeginOperation n # post"
    by blast
  then show "(src_extents (operation_at m n) \<noteq> [] \<longrightarrow>
           (\<exists>pre'. pre = pre' @ [set_exit_blocked True, reset_call]))
        \<and> (src_extents (operation_at m n) = [] \<longrightarrow>
              pre = [] \<or> last pre \<noteq> reset_call)"
  proof cases
    case inB
    from B inB(2) have b: "(src_extents (operation_at m n) \<noteq> [] \<longrightarrow>
           (\<exists>pre'. us = pre' @ [set_exit_blocked True, reset_call]))
        \<and> (src_extents (operation_at m n) = [] \<longrightarrow>
              us = [] \<or> last us \<noteq> reset_call)"
      unfolding reset_precedes_markers_def by blast
    show ?thesis
    proof (cases "src_extents (operation_at m n) \<noteq> []")
      case True
      with b obtain p where "us = p @ [set_exit_blocked True, reset_call]" by auto
      then have "pre = (A @ p) @ [set_exit_blocked True, reset_call]" using inB(1) by simp
      then show ?thesis using True by blast
    next
      case False
      with b have "us = [] \<or> last us \<noteq> reset_call" by simp
      then have "pre = [] \<or> last pre \<noteq> reset_call"
        using l inB(1) by (cases "us = []") auto
      then show ?thesis using False by simp
    qed
  next
    case inA
    then obtain us' where "us = BeginOperation n # us'"
      by (cases us) auto
    then have "A = pre @ BeginOperation n # us'" using inA(1) by simp
    with A show ?thesis unfolding reset_precedes_markers_def by blast
  qed
qed

lemma single_marker:
  assumes a: "\<forall>c\<in>set a. \<not> is_marker c" and b: "\<forall>c\<in>set b. \<not> is_marker c"
    and eq: "a @ BeginOperation n # b = pre @ BeginOperation n' # post"
  shows "pre = a \<and> n' = n"
proof -
  from eq obtain vs where vs: "(a = pre @ vs \<and> vs @ BeginOperation n # b = BeginOperation n' # post)
      \<or> (a @ vs = pre \<and> BeginOperation n # b = vs @ BeginOperation n' # post)"
    by (auto simp: append_eq_append_conv2)
  show ?thesis
  proof (cases vs)
    case Nil
    with vs show ?thesis by auto
  next
    case (Cons v vs')
    with vs have "(a = pre @ v # vs' \<and> v = BeginOperation n')
        \<or> (v = BeginOperation n \<and> b = vs' @ BeginOperation n' # post)"
      by auto
    then show ?thesis using a b by auto
  qed
qed

text \<open>The calls of one iteration of the loop.\<close>

lemma Write_step_calls:
  obtains rest where
    "calls_' (snd (Write_step e s op)) =
       calls_' s @ (if src_extents op = [] then [] else [set_exit_blocked True, reset_call])
         @ BeginOperation (next_operation_num_' s) # rest"
    and "\<forall>c\<in>set rest. \<not> is_marker c"
    and "fst (Write_step e s op) = None \<longrightarrow> rest \<noteq> [] \<and> last rest = ScopedTerminatorExitUnblocker_dtor"
proof -
  let ?pre = "if src_extents op = [] then [] else [set_exit_blocked True, reset_call]"
  let ?s2 = "emit (BeginOperation (next_operation_num_' s)) (reset_if_not_idempotent e s op)"
  let ?k = "length (install_operations (manifest_' s)) \<le> next_operation_num_' s"
  obtain res s3 where d: "dispatch e ?s2 op ?k = (res, s3)"
    by (cases "dispatch e ?s2 op ?k")
  have c2: "calls_' ?s2 = calls_' s @ ?pre @ [BeginOperation (next_operation_num_' s)]"
    by (simp add: reset_if_not_idempotent_def IsIdempotentOperation_def Reset_eq reset_call_def)
  from dispatch_ext [of ?s2 e op ?k] obtain new where
    new: "calls_' s3 = calls_' ?s2 @ new" "\<forall>c\<in>set new. \<not> is_marker c"
    by (auto simp: d extends_unmarked_def)
  show ?thesis
  proof (cases res)
    case Aborted
    show ?thesis
    proof (rule that [of new])
      show "calls_' (snd (Write_step e s op)) = calls_' s @ ?pre @
          BeginOperation (next_operation_num_' s) # new"
        using new c2 Aborted by (simp add: Write_step_cases [OF d])
      show "\<forall>c\<in>set new. \<not> is_marker c" by (rule new(2))
      show "fst (Write_step e s op) = None \<longrightarrow> new \<noteq> [] \<and> last new = ScopedTerminatorExitUnblocker_dtor"
        using Aborted by (simp add: Write_step_cases [OF d])
    qed
  next
    case (Returned b)
    show ?thesis
    proof (cases b)
      case False
      show ?thesis
      proof (rule that [of "new @ [ScopedTerminatorExitUnblocker_dtor]"])
        show "calls_' (snd (Write_step e s op)) = calls_' s @ ?pre @
            BeginOperation (next_operation_num_' s) # (new @ [ScopedTerminatorExitUnblocker_dtor])"
          using new c2 Returned False by (simp add: Write_step_cases [OF d])
        show "\<forall>c\<in>set (new @ [ScopedTerminatorExitUnblocker_dtor]). \<not> is_marker c"
          using new(2) by simp
        show "fst (Write_step e s op) = None \<longrightarrow>
            new @ [ScopedTerminatorExitUnblocker_dtor] \<noteq> []
            \<and> last (new @ [ScopedTerminatorExitUnblocker_dtor]) = ScopedTerminatorExitUnblocker_dtor"
          by simp
      qed
    next
      case True
      let ?s4 = "snd (CheckpointUpdateProgress e (s3\<lparr>next_operation_num_' := next_operation_num_' s3 + 1\<rparr>))"
      from Checkpoint_ext [of "s3\<lparr>next_operation_num_' := next_operation_num_' s3 + 1\<rparr>" e]
      obtain new2 where new2: "calls_' ?s4 = calls_' s3 @ new2" "\<forall>c\<in>set new2. \<not> is_marker c"
        by (auto simp: extends_unmarked_def)
      show ?thesis
      proof (rule that [of "new @ new2 @ [ScopedTerminatorExitUnblocker_dtor]"])
        show "calls_' (snd (Write_step e s op)) = calls_' s @ ?pre @
            BeginOperation (next_operation_num_' s) # (new @ new2 @ [ScopedTerminatorExitUnblocker_dtor])"
          using new new2 c2 Returned True by (simp add: Write_step_cases [OF d])
        show "\<forall>c\<in>set (new @ new2 @ [ScopedTerminatorExitUnblocker_dtor]). \<not> is_marker c"
          using new(2) new2(2) by auto
        show "fst (Write_step e s op) = None \<longrightarrow>
            new @ new2 @ [ScopedTerminatorExitUnblocker_dtor] \<noteq> []
            \<and> last (new @ new2 @ [ScopedTerminatorExitUnblocker_dtor]) = ScopedTerminatorExitUnblocker_dtor"
          by simp
      qed
    qed
  qed
qed

lemma Write_step_reset:
  assumes "op = operation_at m (next_operation_num_' s)"
  obtains seg where "calls_' (snd (Write_step e s op)) = calls_' s @ seg"
    and "reset_precedes_markers m seg"
    and "fst (Write_step e s op) = None \<longrightarrow> seg \<noteq> [] \<and> last seg \<noteq> reset_call"
proof -
  let ?pre = "if src_extents op = [] then [] else [set_exit_blocked True, reset_call]"
  obtain rest where
    r: "calls_' (snd (Write_step e s op)) = calls_' s @ ?pre @ BeginOperation (next_operation_num_' s) # rest"
      "\<forall>c\<in>set rest. \<not> is_marker c"
      "fst (Write_step e s op) = None \<longrightarrow> rest \<noteq> [] \<and> last rest = ScopedTerminatorExitUnblocker_dtor"
    by (rule Write_step_calls)
  let ?seg = "?pre @ BeginOperation (next_operation_num_' s) # rest"
  have pre: "\<forall>c\<in>set ?pre. \<not> is_marker c" by (simp add: reset_call_def)
  have "reset_precedes_markers m ?seg"
    unfolding reset_precedes_markers_def
  proof (intro allI impI)
    fix p n post
    assume "?seg = p @ BeginOperation n # post"
    from single_marker [OF pre r(2) this] have "p = ?pre" "n = next_operation_num_' s" by simp_all
    then show "(src_extents (operation_at m n) \<noteq> [] \<longrightarrow>
           (\<exists>pre'. p = pre' @ [set_exit_blocked True, reset_call]))
        \<and> (src_extents (operation_at m n) = [] \<longrightarrow> p = [] \<or> last p \<noteq> reset_call)"
      using assms by auto
  qed
  moreover have "fst (Write_step e s op) = None \<longrightarrow> ?seg \<noteq> [] \<and> last ?seg \<noteq> reset_call"
    using r(3) by (auto simp: reset_call_def)
  ultimately show ?thesis using r(1) that [of ?seg] by simp
qed

lemma Write_loop_reset:
  "\<exists>new. calls_' (snd (Write_loop e s)) = calls_' s @ new \<and> reset_precedes_markers (manifest_' s) new"
proof (induction e s rule: Write_loop.induct)
  case (1 e s)
  show ?case
  proof (cases "next_operation_num_' s < total_operations s
      \<and> CanPerformInstallOperation s (next_operation s)")
    case False
    then have "Write_loop e s = (None, s)" by (subst Write_loop.simps) auto
    then show ?thesis by (simp add: reset_precedes_unmarked)
  next
    case True
    obtain r s' where ws: "Write_step e s (next_operation s) = (r, s')"
      by (cases "Write_step e s (next_operation s)")
    have "next_operation s = operation_at (manifest_' s) (next_operation_num_' s)"
      by (simp add: next_operation_def)
    from Write_step_reset [OF this, of e] obtain seg where
      seg0: "calls_' (snd (Write_step e s (next_operation s))) = calls_' s @ seg"
        "reset_precedes_markers (manifest_' s) seg"
        "fst (Write_step e s (next_operation s)) = None \<longrightarrow> seg \<noteq> [] \<and> last seg \<noteq> reset_call"
      by metis
    then have seg: "calls_' s' = calls_' s @ seg" "reset_precedes_markers (manifest_' s) seg"
        "r = None \<longrightarrow> seg \<noteq> [] \<and> last seg \<noteq> reset_call"
      by (simp_all add: ws)
    show ?thesis
    proof (cases r)
      case (Some a)
      then have "Write_loop e s = (Some a, s')" using True ws by (subst Write_loop.simps) simp
      then show ?thesis using seg by auto
    next
      case None
      then have wl: "Write_loop e s = Write_loop e s'" using True ws by (subst Write_loop.simps) simp
      have m: "manifest_' s' = manifest_' s"
        using Write_step_fields(1) [of e s "next_operation s"] by (simp add: ws)
      from "1.IH" [of r s'] True ws None obtain new where
        new: "calls_' (snd (Write_loop e s')) = calls_' s' @ new"
          "reset_precedes_markers (manifest_' s) new"
        by (auto simp: m)
      have "reset_precedes_markers (manifest_' s) (seg @ new)"
        using reset_precedes_append [OF seg(2) new(2)] seg(3) None by simp
      then show ?thesis using new(1) seg(1) wl by auto
    qed
  qed
qed

lemma Write_loop_manifest: "manifest_' (snd (Write_loop e s)) = manifest_' s"
  by (rule Write_loop_inv [where I = "\<lambda>t. manifest_' t = manifest_' s"])
     (simp_all add: Write_step_fields)

lemma Write_reset:
  "\<exists>new. calls_' (snd (Write e s bytes)) = calls_' s @ new
     \<and> reset_precedes_markers (manifest_' (snd (Write e s bytes))) new"
proof -
  let ?s0 = "s\<lparr>buffer_' := buffer_' s @ bytes\<rparr>"
  let ?n = "int (length bytes)"
  have loop: "\<exists>new. calls_' (snd (Write_loop e t)) = calls_' t @ new
     \<and> reset_precedes_markers (manifest_' (snd (Write_loop e t))) new" for t
    using Write_loop_reset [of e t] by (simp add: Write_loop_manifest)
  show ?thesis
  proof (cases "manifest_valid_' s")
    case True
    then have "snd (Write e s bytes) = snd (Write_loop e ?s0)"
      by (simp add: Write_def Let_def split_beta split: option.splits)
    then show ?thesis using loop [of ?s0] by simp
  next
    case False
    show ?thesis
    proof (cases "fst (Write_manifest e ?s0 ?n)")
      case (Some r)
      then have w: "snd (Write e s bytes) = snd (Write_manifest e ?s0 ?n)"
        using False by (simp add: Write_def Let_def split_beta)
      have "calls_' (snd (Write_manifest e ?s0 ?n)) = calls_' s @ []"
        using Some by (simp add: Write_manifest_cases Let_def DiscardBufferHeadBytes_def split: if_splits)
      then show ?thesis unfolding w using reset_precedes_unmarked [of "[]"] by fastforce
    next
      case None
      let ?s1 = "snd (Write_manifest e ?s0 ?n)"
      have w: "snd (Write e s bytes) = snd (Write_loop e ?s1)"
        using False None by (simp add: Write_def Let_def split_beta split: option.splits)
      obtain v where c1: "calls_' ?s1 = calls_' s @ [SetInt64 kPrefsManifestMetadataSize v]"
        using None by (simp add: Write_manifest_cases Let_def DiscardBufferHeadBytes_def split: if_splits)
      from loop [of ?s1] obtain new where new: "calls_' (snd (Write_loop e ?s1)) = calls_' ?s1 @ new"
        "reset_precedes_markers (manifest_' (snd (Write_loop e ?s1))) new"
        by blast
      have "reset_precedes_markers (manifest_' (snd (Write_loop e ?s1)))
          ([SetInt64 kPrefsManifestMetadataSize v] @ new)"
        by (rule reset_precedes_append [OF reset_precedes_unmarked new(2)])
           (simp_all add: reset_call_def)
      then show ?thesis unfolding w using new(1) c1 by auto
    qed
  qed
qed

text \<open>
  The order of the calls. An operation is idempotent exactly when it has no source
  extents. In the calls of any \<^verbatim>\<open>Write\<close>, wherever the dispatch of operation \<open>n\<close> begins:
  if the operation has source extents, the two calls right before it engage the
  Terminator and write the sentinel INVALID (\<open>-1\<close>) under the key of
  \<^verbatim>\<open>next_operation\<close>, in this order; if it has none, the call right before it (if this
  \<^verbatim>\<open>Write\<close> issued one) is not that reset. The reply of the store to the write is not
  part of the statement.
\<close>

lemma reset_before_non_idempotent:
  "(IsIdempotentOperation op \<longleftrightarrow> src_extents op = [])
   \<and> (calls_' (snd (Write e s bytes)) = calls_' s @ pre @ BeginOperation n # post \<longrightarrow>
        (src_extents (operation_at (manifest_' (snd (Write e s bytes))) n) \<noteq> [] \<longrightarrow>
           (\<exists>pre'. pre = pre' @ [set_exit_blocked True,
               SetInt64 kPrefsUpdateStateNextOperation kUpdateStateOperationInvalid]))
      \<and> (src_extents (operation_at (manifest_' (snd (Write e s bytes))) n) = [] \<longrightarrow>
           pre = [] \<or> last pre \<noteq> SetInt64 kPrefsUpdateStateNextOperation kUpdateStateOperationInvalid))"
proof -
  from Write_reset [of e s bytes] obtain new where
    new: "calls_' (snd (Write e s bytes)) = calls_' s @ new"
      "reset_precedes_markers (manifest_' (snd (Write e s bytes))) new"
    by blast
  show ?thesis
  proof (intro conjI impI)
    show "IsIdempotentOperation op \<longleftrightarrow> src_extents op = []"
      by (simp add: IsIdempotentOperation_def)
  next
    assume a: "calls_' (snd (Write e s bytes)) = calls_' s @ pre @ BeginOperation n # post"
    then have eq: "new = pre @ BeginOperation n # post" using new(1) by simp
    {
      assume "src_extents (operation_at (manifest_' (snd (Write e s bytes))) n) \<noteq> []"
      then show "\<exists>pre'. pre = pre' @ [set_exit_blocked True,
               SetInt64 kPrefsUpdateStateNextOperation kUpdateStateOperationInvalid]"
        using new(2) eq unfolding reset_precedes_markers_def reset_call_def by blast
    }
    {
      assume "src_extents (operation_at (manifest_' (snd (Write e s bytes))) n) = []"
      then show "pre = [] \<or> last pre \<noteq> SetInt64 kPrefsUpdateStateNextOperation kUpdateStateOperationInvalid"
        using new(2) eq unfolding reset_precedes_markers_def reset_call_def by blast
    }
  qed
qed

text \<open>
  The theorem on a MOVE followed by a REPLACE: the reset comes right before the dispatch
  of the MOVE, none before that of the REPLACE.
\<close>

lemma replicate_two: "replicate 2 x = [x, x]"
  by (simp add: numeral_2_eq_2)

lemma move_replace_calls:
  "calls_' (snd (Write (stub_env move_replace_manifest) new_performer
      (payload_prefix ''CrAU'' @ [7, 9]))) =
     calls_before_move @ BeginOperation 0 # calls_of_move @ BeginOperation 1 # calls_of_replace"
  "manifest_' (snd (Write (stub_env move_replace_manifest) new_performer
      (payload_prefix ''CrAU'' @ [7, 9]))) = move_replace_manifest"
  by (simp_all add: run_simps move_replace_manifest_def calls_before_move_def calls_of_move_def
      calls_of_replace_def replicate_two)

lemma reset_before_non_idempotent_witness:
  "calls_' (snd (Write (stub_env move_replace_manifest) new_performer
      (payload_prefix ''CrAU'' @ [7, 9]))) =
     calls_' new_performer @ calls_before_move @ BeginOperation 0
       # (calls_of_move @ BeginOperation 1 # calls_of_replace)
   \<and> src_extents (operation_at move_replace_manifest 0) \<noteq> []
   \<and> (\<exists>pre'. calls_before_move = pre' @ [set_exit_blocked True,
          SetInt64 kPrefsUpdateStateNextOperation kUpdateStateOperationInvalid])
   \<and> calls_' (snd (Write (stub_env move_replace_manifest) new_performer
      (payload_prefix ''CrAU'' @ [7, 9]))) =
     calls_' new_performer @ (calls_before_move @ BeginOperation 0 # calls_of_move)
       @ BeginOperation 1 # calls_of_replace
   \<and> src_extents (operation_at move_replace_manifest 1) = []
   \<and> last (calls_before_move @ BeginOperation 0 # calls_of_move)
        \<noteq> SetInt64 kPrefsUpdateStateNextOperation kUpdateStateOperationInvalid"
proof -
  have n: "calls_' new_performer = []" by (simp add: new_performer_def)
  have s0: "src_extents (operation_at move_replace_manifest 0) \<noteq> []"
    and s1: "src_extents (operation_at move_replace_manifest (Suc 0)) = []"
    by (simp_all add: move_replace_manifest_def manifest_of_def empty_manifest_def operation_at_def
        move_op_def replace_op_def)
  have l: "calls_of_move \<noteq> []" "last calls_of_move = ScopedTerminatorExitUnblocker_dtor"
    by (simp_all add: calls_of_move_def)
  show ?thesis
    using reset_before_non_idempotent [of move_op "stub_env move_replace_manifest" new_performer
        "payload_prefix ''CrAU'' @ [7, 9]" calls_before_move 0
        "calls_of_move @ BeginOperation 1 # calls_of_replace"]
      reset_before_non_idempotent [of move_op "stub_env move_replace_manifest" new_performer
        "payload_prefix ''CrAU'' @ [7, 9]" "calls_before_move @ BeginOperation 0 # calls_of_move" 1
        calls_of_replace]
    by (simp add: move_replace_calls n s0 s1 l)
qed

text \<open>
  Claim C5 on the program: a MOVE, with a preference store that rejects every write.
  The write of the sentinel before the MOVE is answered with a failure, so the sentinel
  is not persisted; \<^verbatim>\<open>ResetUpdateProgress\<close> returns false, \<^verbatim>\<open>Write\<close> does not read it, and
  the MOVE reads block 0 and writes block 1 all the same. \<^verbatim>\<open>Write\<close> returns the byte
  count 20.
\<close>

theorem Write_moves_after_failed_reset:
  "fst (Write (failing_prefs_env single_move_manifest) new_performer
          (payload_prefix ''CrAU'')) = Returned 20
   \<and> calls_' (snd (Write (failing_prefs_env single_move_manifest) new_performer
          (payload_prefix ''CrAU''))) =
       [SetInt64 kPrefsManifestMetadataSize 20,
        set_exit_blocked True,
        SetInt64 kPrefsUpdateStateNextOperation (- 1),
        BeginOperation 0,
        PReadAll (- 1) 2 0,
        PWriteAll (- 1) [0, 0] 2,
        set_exit_blocked True,
        SetInt64 kPrefsUpdateStateNextOperation (- 1),
        SetString kPrefsUpdateStateSHA256Context (payload_prefix ''CrAU''),
        ScopedTerminatorExitUnblocker_dtor]
   \<and> \<not> r_ok (respond (failing_prefs_env single_move_manifest)
         [SetInt64 kPrefsManifestMetadataSize 20,
          set_exit_blocked True]
         (SetInt64 kPrefsUpdateStateNextOperation (- 1)))
   \<and> \<not> fst (ResetUpdateProgress (failing_prefs_env single_move_manifest)
         (new_performer\<lparr>calls_' := [SetInt64 kPrefsManifestMetadataSize 20,
                                      set_exit_blocked True]\<rparr>))
   \<and> src_extents (operation_at single_move_manifest 0)
       = [\<lparr>start_block = 0, num_blocks = 1\<rparr>]"
  by (simp add: run_simps single_move_manifest_def replicate_two)

section \<open>The bytes covered by the hash\<close>

lemma Discard_fields:
  "manifest_metadata_size_' (DiscardBufferHeadBytes n s) = manifest_metadata_size_' s"
  "buffer_offset_' (DiscardBufferHeadBytes n s) = buffer_offset_' s"
  "manifest_valid_' (DiscardBufferHeadBytes n s) = manifest_valid_' s"
  "absorbed (hash_calculator_' (DiscardBufferHeadBytes n s)) @ buffer_' (DiscardBufferHeadBytes n s)
     = absorbed (hash_calculator_' s) @ buffer_' s"
  "length (absorbed (hash_calculator_' (DiscardBufferHeadBytes n s)))
     = length (absorbed (hash_calculator_' s)) + min (length (buffer_' s)) n"
  by (simp_all add: DiscardBufferHeadBytes_def hash_Update_def)

text \<open>
  Consuming the blob of an operation: the offset advances by the length of the blob and
  as many bytes go from the buffer to the hash. The stream is shorter than \<open>2 ^ 64\<close>
  bytes, so the sum does not wrap.
\<close>

lemma consume_covers:
  assumes c: "hash_covers s stream" and len: "length stream < 2 ^ 64"
    and n: "unat n \<le> length (buffer_' s)"
  shows "hash_covers (DiscardBufferHeadBytes (unat n)
           (s\<lparr>calls_' := cs, buffer_offset_' := buffer_offset_' s + n\<rparr>)) stream"
proof -
  have "unat (manifest_metadata_size_' s) + unat (buffer_offset_' s) + length (buffer_' s)
      = length stream"
    using c by (auto simp: hash_covers_def)
  then have "unat (buffer_offset_' s) + unat n < 2 ^ 64"
    using len n by linarith
  then have "unat (buffer_offset_' s + n) = unat (buffer_offset_' s) + unat n"
    by (simp add: unat_add_lem [THEN iffD1])
  then show ?thesis
    using c n by (simp add: hash_covers_def Discard_fields min_def)
qed

lemma covers_cong:
  assumes "hash_covers s stream"
    and "hash_calculator_' s' = hash_calculator_' s" and "buffer_' s' = buffer_' s"
    and "manifest_metadata_size_' s' = manifest_metadata_size_' s"
    and "buffer_offset_' s' = buffer_offset_' s" and "manifest_valid_' s' = manifest_valid_' s"
  shows "hash_covers s' stream"
  using assms by (simp add: hash_covers_def)

lemma covers_calls [simp]:
  "hash_covers (s\<lparr>calls_' := cs\<rparr>) stream = hash_covers s stream"
  "hash_covers (emit c s) stream = hash_covers s stream"
  "hash_covers (s\<lparr>next_operation_num_' := k\<rparr>) stream = hash_covers s stream"
  by (simp_all add: hash_covers_def)

lemma Extract_covers:
  "hash_covers (snd (ExtractSignatureMessage e s op)) stream = hash_covers s stream"
  by (simp add: hash_covers_def Extract_frame)

lemma Checkpoint_covers:
  "hash_covers (snd (CheckpointUpdateProgress e s)) stream = hash_covers s stream"
  by (simp add: hash_covers_def Checkpoint_frame)

lemma reset_covers:
  "hash_covers (reset_if_not_idempotent e s op) stream = hash_covers s stream"
  by (simp add: hash_covers_def reset_frame)

lemma Replace_covers:
  assumes c: "hash_covers s stream" and len: "length stream < 2 ^ 64"
  shows "hash_covers (snd (PerformReplaceOperation e s op k)) stream"
proof -
  let ?s0 = "snd (ExtractSignatureMessage e s op)"
  have c0: "hash_covers ?s0 stream"
    using c by (simp add: Extract_covers)
  have "unat (data_length op) \<le> length (buffer_' s) \<Longrightarrow>
      hash_covers (DiscardBufferHeadBytes (unat (data_length op))
        (?s0\<lparr>calls_' := cs, buffer_offset_' := buffer_offset_' ?s0 + data_length op\<rparr>)) stream" for cs
    using consume_covers [OF c0 len, of "data_length op" cs] by (simp add: Extract_frame)
  then show ?thesis
    using c c0
    by (simp add: PerformReplaceOperation_def Let_def split_beta split: bool.splits)
qed

lemma Move_covers:
  "hash_covers s stream \<Longrightarrow> hash_covers (snd (PerformMoveOperation e s op k)) stream"
  by (simp add: hash_covers_def Move_frame)

lemma Bsdiff_covers:
  assumes c: "hash_covers s stream" and len: "length stream < 2 ^ 64"
  shows "hash_covers (snd (PerformBsdiffOperation e s op k)) stream"
proof -
  have "unat (data_length op) \<le> length (buffer_' s) \<Longrightarrow>
      hash_covers (DiscardBufferHeadBytes (unat (data_length op))
        (s\<lparr>calls_' := cs, buffer_offset_' := buffer_offset_' s + data_length op\<rparr>)) stream" for cs
    using consume_covers [OF c len, of "data_length op" cs] by simp
  then have "hash_covers (snd (case bsdiff_calls e cs0 fd path bs op ip ou d of
        (Returned True, cs) \<Rightarrow>
          (Returned True,
           DiscardBufferHeadBytes (unat (data_length op))
             (s\<lparr>calls_' := cs, buffer_offset_' := buffer_offset_' s + data_length op\<rparr>))
      | (res, cs) \<Rightarrow> (res, s\<lparr>calls_' := cs\<rparr>))) stream"
    if "unat (data_length op) \<le> length (buffer_' s)" for cs0 fd path bs ip ou d
    using c that by (simp split: prod.splits result.splits bool.splits)
  then show ?thesis
    using c
    unfolding PerformBsdiffOperation_def Let_def
    by (simp split: option.splits del: split_paired_All)
qed

lemma dispatch_covers:
  assumes "hash_covers s stream" and "length stream < 2 ^ 64"
  shows "hash_covers (snd (dispatch e s op k)) stream"
  using assms by (simp add: dispatch_def Replace_covers Move_covers Bsdiff_covers)

lemma Write_step_covers:
  assumes c: "hash_covers s stream" and len: "length stream < 2 ^ 64"
  shows "hash_covers (snd (Write_step e s op)) stream"
proof -
  let ?s2 = "emit (BeginOperation (next_operation_num_' s)) (reset_if_not_idempotent e s op)"
  let ?k = "length (install_operations (manifest_' s)) \<le> next_operation_num_' s"
  obtain res s3 where d: "dispatch e ?s2 op ?k = (res, s3)"
    by (cases "dispatch e ?s2 op ?k")
  have "hash_covers ?s2 stream"
    using c by (simp add: reset_covers)
  from dispatch_covers [OF this len, of e op ?k] have "hash_covers s3 stream"
    by (simp add: d)
  then show ?thesis
    by (simp add: Write_step_cases [OF d] Checkpoint_covers split: result.splits bool.splits)
qed

lemma Write_loop_covers:
  assumes "hash_covers s stream" and "length stream < 2 ^ 64"
  shows "hash_covers (snd (Write_loop e s)) stream"
proof (rule Write_loop_inv [where I = "\<lambda>s. hash_covers s stream"])
  show "hash_covers s stream" by (rule assms(1))
next
  fix s'
  assume "hash_covers s' stream"
  then show "hash_covers (snd (Write_step e s' (next_operation s'))) stream"
    using assms(2) by (rule Write_step_covers)
qed

lemma Write_manifest_covers:
  assumes c: "hash_covers s stream" and v: "\<not> manifest_valid_' s"
  shows "hash_covers (snd (Write_manifest e s count)) stream"
proof (cases "prefix_complete (buffer_' s)")
  case False
  then show ?thesis using c by (simp add: Write_manifest_cases)
next
  case True
  let ?msz = "20 + protobuf_length_of (buffer_' s)"
  have fits: "unat ?msz \<le> length (buffer_' s)"
    using True by (simp add: prefix_complete_def protobuf_length_of_def Let_def not_less)
  have z: "manifest_metadata_size_' s = 0"
    using c v by (simp add: hash_covers_def)
  show ?thesis
    using c True fits z
    by (simp add: Write_manifest_cases Let_def hash_covers_def Discard_fields min_def)
qed

lemma Write_covers:
  assumes c: "hash_covers s stream" and len: "length (stream @ bytes) < 2 ^ 64"
  shows "hash_covers (snd (Write e s bytes)) (stream @ bytes)"
proof -
  let ?s0 = "s\<lparr>buffer_' := buffer_' s @ bytes\<rparr>"
  let ?n = "int (length bytes)"
  have c0: "hash_covers ?s0 (stream @ bytes)"
    using c by (auto simp: hash_covers_def)
  show ?thesis
  proof (cases "manifest_valid_' s")
    case True
    then have "snd (Write e s bytes) = snd (Write_loop e ?s0)"
      by (simp add: Write_def Let_def split_beta split: option.splits)
    then show ?thesis
      using Write_loop_covers [OF c0 len] by simp
  next
    case False
    obtain r s1 where m: "Write_manifest e ?s0 ?n = (r, s1)"
      by (cases "Write_manifest e ?s0 ?n")
    have c1: "hash_covers s1 (stream @ bytes)"
      using Write_manifest_covers [OF c0, of e ?n] False by (simp add: m)
    show ?thesis
    proof (cases r)
      case None
      then have "snd (Write e s bytes) = snd (Write_loop e s1)"
        using False m by (simp add: Write_def Let_def split_beta split: option.splits)
      then show ?thesis
        using Write_loop_covers [OF c1 len] by simp
    next
      case (Some a)
      then have "snd (Write e s bytes) = s1"
        using False m by (simp add: Write_def Let_def)
      then show ?thesis using c1 by simp
    qed
  qed
qed

text \<open>
  Claim C9. The performer starts with the hash covering the empty stream. Every
  \<^verbatim>\<open>Write\<close>, whatever it returns, and every iteration of its loop keep the coverage, for
  a stream shorter than \<open>2 ^ 64\<close> bytes: the hash has absorbed exactly the first
  \<^verbatim>\<open>manifest_metadata_size_ + buffer_offset_\<close> bytes of the stream, and the rest of the
  stream is what the buffer holds, so every byte that left the buffer went into the hash
  once and nothing else did.
\<close>

theorem hash_coverage:
  "hash_covers new_performer []
   \<and> (hash_covers s stream \<and> length (stream @ bytes) < 2 ^ 64 \<longrightarrow>
        hash_covers (snd (Write e s bytes)) (stream @ bytes))
   \<and> (hash_covers s stream \<and> length stream < 2 ^ 64 \<longrightarrow>
        hash_covers (snd (Write_step e s op)) stream)
   \<and> (hash_covers s stream \<longrightarrow>
        absorbed (hash_calculator_' s)
          = take (unat (manifest_metadata_size_' s) + unat (buffer_offset_' s)) stream
        \<and> buffer_' s
          = drop (unat (manifest_metadata_size_' s) + unat (buffer_offset_' s)) stream)"
proof -
  have "hash_covers new_performer []"
    by (simp add: hash_covers_def new_performer_def)
  moreover have "hash_covers s stream \<Longrightarrow>
      absorbed (hash_calculator_' s)
        = take (unat (manifest_metadata_size_' s) + unat (buffer_offset_' s)) stream
      \<and> buffer_' s = drop (unat (manifest_metadata_size_' s) + unat (buffer_offset_' s)) stream"
    by (auto simp: hash_covers_def)
  ultimately show ?thesis
    using Write_covers [of s stream bytes e] Write_step_covers [of s stream e op] by blast
qed

text \<open>
  The theorem on the payload of a MOVE followed by a REPLACE of two bytes, handed over
  in one \<^verbatim>\<open>Write\<close>: the hash has absorbed the 20 bytes of the metadata and the 2 of
  the blob.
\<close>

lemma move_replace_consumed:
  "manifest_metadata_size_' (snd (Write (stub_env move_replace_manifest) new_performer
      (payload_prefix ''CrAU'' @ [7, 9]))) = 20"
  "buffer_offset_' (snd (Write (stub_env move_replace_manifest) new_performer
      (payload_prefix ''CrAU'' @ [7, 9]))) = 2"
  "absorbed (hash_calculator_' (snd (Write (stub_env move_replace_manifest) new_performer
      (payload_prefix ''CrAU'' @ [7, 9])))) = payload_prefix ''CrAU'' @ [7, 9]"
  "buffer_' (snd (Write (stub_env move_replace_manifest) new_performer
      (payload_prefix ''CrAU'' @ [7, 9]))) = []"
  by (simp_all add: run_simps move_replace_manifest_def replicate_two)

theorem hash_coverage_witness:
  "hash_covers new_performer []
   \<and> length ([] @ payload_prefix ''CrAU'' @ [7, 9]) < 2 ^ 64
   \<and> hash_covers (snd (Write (stub_env move_replace_manifest) new_performer
        (payload_prefix ''CrAU'' @ [7, 9]))) (payload_prefix ''CrAU'' @ [7, 9])
   \<and> hash_covers (snd (Write_step (stub_env move_replace_manifest) new_performer move_op)) []
   \<and> absorbed (hash_calculator_' (snd (Write (stub_env move_replace_manifest) new_performer
        (payload_prefix ''CrAU'' @ [7, 9]))))
       = take (unat (20 :: u64) + unat (2 :: u64)) (payload_prefix ''CrAU'' @ [7, 9])
   \<and> take (unat (20 :: u64) + unat (2 :: u64)) (payload_prefix ''CrAU'' @ [7, 9])
       = payload_prefix ''CrAU'' @ [7, 9]"
proof -
  let ?e = "stub_env move_replace_manifest"
  let ?p = "payload_prefix ''CrAU'' @ [7, 9]"
  let ?s = "snd (Write ?e new_performer ?p)"
  note h = hash_coverage [of new_performer "[]" ?p ?e move_op]
  have n: "length ([] @ ?p) < 2 ^ 64"
    by (simp add: payload_prefix_def)
  have n0: "length ([] :: byte list) < 2 ^ 64"
    by simp
  have t: "take (unat (20 :: u64) + unat (2 :: u64)) ?p = ?p"
    by (simp add: payload_prefix_def)
  have h0: "hash_covers new_performer []"
    using h by blast
  have "hash_covers ?s ([] @ ?p)"
    using h n by blast
  then have w: "hash_covers ?s ?p"
    by (simp only: append_Nil)
  have st: "hash_covers (snd (Write_step ?e new_performer move_op)) []"
    using h n0 by blast
  have "absorbed (hash_calculator_' ?s)
      = take (unat (manifest_metadata_size_' ?s) + unat (buffer_offset_' ?s)) ?p"
    using hash_coverage [of ?s ?p "[]" ?e move_op] w by blast
  then have ab: "absorbed (hash_calculator_' ?s) = take (unat (20 :: u64) + unat (2 :: u64)) ?p"
    by (simp only: move_replace_consumed)
  show ?thesis
    using h0 n w st ab t by blast
qed

section \<open>One \<^verbatim>\<open>Write\<close> of the whole payload against a \<^verbatim>\<open>Write\<close> for each chunk\<close>

subsection \<open>More bytes at the end of the buffer\<close>

lemma insert_end_fields [simp]:
  "buffer_' (buffer_insert_end s X) = buffer_' s @ X"
  "calls_' (buffer_insert_end s X) = calls_' s"
  "fd_' (buffer_insert_end s X) = fd_' s"
  "kernel_fd_' (buffer_insert_end s X) = kernel_fd_' s"
  "path_' (buffer_insert_end s X) = path_' s"
  "kernel_path_' (buffer_insert_end s X) = kernel_path_' s"
  "manifest_' (buffer_insert_end s X) = manifest_' s"
  "manifest_valid_' (buffer_insert_end s X) = manifest_valid_' s"
  "manifest_metadata_size_' (buffer_insert_end s X) = manifest_metadata_size_' s"
  "next_operation_num_' (buffer_insert_end s X) = next_operation_num_' s"
  "buffer_offset_' (buffer_insert_end s X) = buffer_offset_' s"
  "last_updated_buffer_offset_' (buffer_insert_end s X) = last_updated_buffer_offset_' s"
  "block_size_' (buffer_insert_end s X) = block_size_' s"
  "hash_calculator_' (buffer_insert_end s X) = hash_calculator_' s"
  "signed_hash_context_' (buffer_insert_end s X) = signed_hash_context_' s"
  "signatures_message_data_' (buffer_insert_end s X) = signatures_message_data_' s"
  by (simp_all add: buffer_insert_end_def)

lemma insert_end_append:
  "buffer_insert_end (buffer_insert_end s X) Y = buffer_insert_end s (X @ Y)"
  by (simp add: buffer_insert_end_def)

lemma insert_end_Nil [simp]: "buffer_insert_end s [] = s"
  by (simp add: buffer_insert_end_def)

lemma update_insert_end:
  "(buffer_insert_end s X)\<lparr>calls_' := cs\<rparr> = buffer_insert_end (s\<lparr>calls_' := cs\<rparr>) X"
  "(buffer_insert_end s X)\<lparr>buffer_offset_' := b\<rparr>
     = buffer_insert_end (s\<lparr>buffer_offset_' := b\<rparr>) X"
  "(buffer_insert_end s X)\<lparr>next_operation_num_' := j\<rparr>
     = buffer_insert_end (s\<lparr>next_operation_num_' := j\<rparr>) X"
  "(buffer_insert_end s X)\<lparr>manifest_' := m\<rparr> = buffer_insert_end (s\<lparr>manifest_' := m\<rparr>) X"
  by (simp_all add: buffer_insert_end_def)

lemma Discard_insert_end:
  "n \<le> length (buffer_' s) \<Longrightarrow>
     DiscardBufferHeadBytes n (buffer_insert_end s X)
       = buffer_insert_end (DiscardBufferHeadBytes n s) X"
  by (simp add: DiscardBufferHeadBytes_def buffer_insert_end_def)

lemma emit_insert_end:
  "emit c (buffer_insert_end s X) = buffer_insert_end (emit c s) X"
  by (simp add: emit_def buffer_insert_end_def)

lemma reset_insert_end:
  "reset_if_not_idempotent e (buffer_insert_end s X) op
     = buffer_insert_end (reset_if_not_idempotent e s op) X"
  by (simp add: reset_if_not_idempotent_def Reset_eq emit_insert_end)

lemma Checkpoint_insert_end:
  "CheckpointUpdateProgress e (buffer_insert_end s X)
     = (fst (CheckpointUpdateProgress e s), buffer_insert_end (snd (CheckpointUpdateProgress e s)) X)"
  by (simp add: CheckpointUpdateProgress_def Reset_eq do_call_eq Let_def emit_def
      buffer_insert_end_def)

lemma Extract_insert_end:
  assumes "unat (data_length op) \<le> length (buffer_' s)"
  shows "ExtractSignatureMessage e (buffer_insert_end s X) op
     = (fst (ExtractSignatureMessage e s op),
        buffer_insert_end (snd (ExtractSignatureMessage e s op)) X)"
  using assms
  by (simp add: ExtractSignatureMessage_def do_call_eq Let_def emit_def buffer_insert_end_def)

lemma Move_insert_end:
  "PerformMoveOperation e (buffer_insert_end s X) op k
     = (fst (PerformMoveOperation e s op k),
        buffer_insert_end (snd (PerformMoveOperation e s op k)) X)"
  by (simp add: PerformMoveOperation_def Let_def split_beta update_insert_end)

lemma Replace_insert_end:
  assumes "same_check s op X"
  shows "PerformReplaceOperation e (buffer_insert_end s X) op k
     = (fst (PerformReplaceOperation e s op k),
        buffer_insert_end (snd (PerformReplaceOperation e s op k)) X)"
proof (cases "buffer_offset_' s = data_offset op \<and> unat (data_length op) \<le> length (buffer_' s)")
  case True
  let ?s0 = "snd (ExtractSignatureMessage e s op)"
  have b: "buffer_' ?s0 = buffer_' s"
    by (simp add: Extract_frame)
  have d: "DiscardBufferHeadBytes (unat (data_length op))
        (buffer_insert_end (?s0\<lparr>calls_' := cs, buffer_offset_' := bo\<rparr>) X)
      = buffer_insert_end (DiscardBufferHeadBytes (unat (data_length op))
          (?s0\<lparr>calls_' := cs, buffer_offset_' := bo\<rparr>)) X" for cs bo
    using True by (simp add: Discard_insert_end b)
  show ?thesis
    using True
    by (simp add: PerformReplaceOperation_def Extract_insert_end Let_def split_beta b
        update_insert_end d split: bool.splits)
next
  case False
  then show ?thesis
    using assms by (auto simp: PerformReplaceOperation_def same_check_def)
qed

lemma Bsdiff_insert_end:
  assumes "same_check s op X"
  shows "PerformBsdiffOperation e (buffer_insert_end s X) op k
     = (fst (PerformBsdiffOperation e s op k),
        buffer_insert_end (snd (PerformBsdiffOperation e s op k)) X)"
proof (cases "buffer_offset_' s = data_offset op \<and> unat (data_length op) \<le> length (buffer_' s)")
  case True
  have d: "DiscardBufferHeadBytes (unat (data_length op))
        (buffer_insert_end (s\<lparr>calls_' := cs, buffer_offset_' := bo\<rparr>) X)
      = buffer_insert_end (DiscardBufferHeadBytes (unat (data_length op))
          (s\<lparr>calls_' := cs, buffer_offset_' := bo\<rparr>)) X" for cs bo
    using True by (simp add: Discard_insert_end)
  show ?thesis
    using True
    by (simp add: PerformBsdiffOperation_def Let_def split_beta update_insert_end d
        split: option.splits result.splits bool.splits)
next
  case False
  then show ?thesis
    using assms by (auto simp: PerformBsdiffOperation_def same_check_def)
qed

lemma dispatch_insert_end:
  assumes "op_type op \<noteq> MOVE \<longrightarrow> same_check s op X"
  shows "dispatch e (buffer_insert_end s X) op k
     = (fst (dispatch e s op k), buffer_insert_end (snd (dispatch e s op k)) X)"
  using assms
  by (simp add: dispatch_def Replace_insert_end Bsdiff_insert_end Move_insert_end)

lemma Write_step_insert_end:
  assumes "op_type op \<noteq> MOVE \<longrightarrow> same_check s op X"
  shows "Write_step e (buffer_insert_end s X) op
     = (fst (Write_step e s op), buffer_insert_end (snd (Write_step e s op)) X)"
proof -
  let ?s2 = "emit (BeginOperation (next_operation_num_' s)) (reset_if_not_idempotent e s op)"
  let ?k = "length (install_operations (manifest_' s)) \<le> next_operation_num_' s"
  obtain res s3 where d: "dispatch e ?s2 op ?k = (res, s3)"
    by (cases "dispatch e ?s2 op ?k")
  have "op_type op \<noteq> MOVE \<longrightarrow> same_check ?s2 op X"
    using assms by (simp add: same_check_def reset_frame)
  from dispatch_insert_end [OF this, of e ?k]
  have "dispatch e (buffer_insert_end ?s2 X) op ?k = (res, buffer_insert_end s3 X)"
    by (simp add: d)
  then have d': "dispatch e (emit (BeginOperation (next_operation_num_' (buffer_insert_end s X)))
      (reset_if_not_idempotent e (buffer_insert_end s X) op)) op
      (length (install_operations (manifest_' (buffer_insert_end s X)))
         \<le> next_operation_num_' (buffer_insert_end s X)) = (res, buffer_insert_end s3 X)"
    by (simp add: reset_insert_end emit_insert_end)
  show ?thesis
    unfolding Write_step_cases [OF d] Write_step_cases [OF d']
    by (simp add: update_insert_end Checkpoint_insert_end emit_insert_end
        split: result.splits bool.splits)
qed

subsection \<open>The end of the buffered bytes\<close>

lemma buffered_end_insert [simp]:
  "buffered_end (buffer_insert_end s X) = buffered_end s + length X"
  by (simp add: buffered_end_def)

lemma buffered_end_calls [simp]:
  "buffered_end (s\<lparr>calls_' := cs\<rparr>) = buffered_end s"
  "buffered_end (emit c s) = buffered_end s"
  "buffered_end (s\<lparr>next_operation_num_' := j\<rparr>) = buffered_end s"
  by (simp_all add: buffered_end_def)

lemma consume_end:
  assumes "unat n \<le> length (buffer_' s)"
  shows "buffered_end (DiscardBufferHeadBytes (unat n)
           (s\<lparr>calls_' := cs, buffer_offset_' := buffer_offset_' s + n\<rparr>)) \<le> buffered_end s"
proof -
  have "unat (buffer_offset_' s + n) \<le> unat (buffer_offset_' s) + unat n"
    by (simp add: unat_word_ariths)
  then show ?thesis
    using assms by (simp add: buffered_end_def DiscardBufferHeadBytes_def)
qed

lemma Replace_end:
  "buffered_end (snd (PerformReplaceOperation e s op k)) \<le> buffered_end s"
proof -
  let ?s0 = "snd (ExtractSignatureMessage e s op)"
  have e0: "buffered_end ?s0 = buffered_end s"
    by (simp add: buffered_end_def Extract_frame)
  have "unat (data_length op) \<le> length (buffer_' s) \<Longrightarrow>
      buffered_end (DiscardBufferHeadBytes (unat (data_length op))
        (?s0\<lparr>calls_' := cs, buffer_offset_' := buffer_offset_' ?s0 + data_length op\<rparr>))
        \<le> buffered_end s" for cs
    using consume_end [of "data_length op" ?s0 cs] by (simp add: Extract_frame e0)
  then show ?thesis
    by (simp add: PerformReplaceOperation_def Let_def split_beta e0 split: bool.splits)
qed

lemma Bsdiff_end:
  "buffered_end (snd (PerformBsdiffOperation e s op k)) \<le> buffered_end s"
proof -
  have "buffered_end (snd (case bsdiff_calls e cs0 fd path bs op ip ou d of
        (Returned True, cs) \<Rightarrow>
          (Returned True,
           DiscardBufferHeadBytes (unat (data_length op))
             (s\<lparr>calls_' := cs, buffer_offset_' := buffer_offset_' s + data_length op\<rparr>))
      | (res, cs) \<Rightarrow> (res, s\<lparr>calls_' := cs\<rparr>))) \<le> buffered_end s"
    if "unat (data_length op) \<le> length (buffer_' s)" for cs0 fd path bs ip ou d
    using consume_end [OF that] by (simp split: prod.splits result.splits bool.splits)
  then show ?thesis
    unfolding PerformBsdiffOperation_def Let_def
    by (simp split: option.splits del: split_paired_All)
qed

lemma dispatch_end:
  "buffered_end (snd (dispatch e s op k)) \<le> buffered_end s"
  by (simp add: dispatch_def Replace_end Bsdiff_end)
     (simp add: buffered_end_def Move_frame)

lemma Write_step_end:
  "buffered_end (snd (Write_step e s op)) \<le> buffered_end s"
proof -
  let ?s2 = "emit (BeginOperation (next_operation_num_' s)) (reset_if_not_idempotent e s op)"
  let ?k = "length (install_operations (manifest_' s)) \<le> next_operation_num_' s"
  obtain res s3 where d: "dispatch e ?s2 op ?k = (res, s3)"
    by (cases "dispatch e ?s2 op ?k")
  have "buffered_end ?s2 = buffered_end s"
    by (simp add: buffered_end_def reset_frame)
  with dispatch_end [of e ?s2 op ?k] have "buffered_end s3 \<le> buffered_end s"
    by (simp add: d)
  moreover have "buffered_end (snd (CheckpointUpdateProgress e t)) = buffered_end t" for t
    by (simp add: buffered_end_def Checkpoint_frame)
  ultimately show ?thesis
    by (simp add: Write_step_cases [OF d] split: result.splits bool.splits)
qed

lemma Write_manifest_end:
  "buffered_end (snd (Write_manifest e s count)) \<le> buffered_end s"
  by (simp add: Write_manifest_cases Let_def buffered_end_def DiscardBufferHeadBytes_def)

subsection \<open>An operation that can be performed, with more bytes in the buffer\<close>

lemma can_perform_same_check:
  assumes c: "CanPerformInstallOperation s op" and m: "op_type op \<noteq> MOVE"
    and n: "buffered_end s + length X < 2 ^ 64"
  shows "same_check s op X"
proof -
  have "unat (data_length op) \<le> length (buffer_' s)
      \<or> length (buffer_' s) + length X < unat (data_length op)"
    if eq: "buffer_offset_' s = data_offset op"
  proof (cases "unat (buffer_offset_' s) + unat (data_length op) < 2 ^ 64")
    case True
    then have "unat (buffer_offset_' s + data_length op)
        = unat (buffer_offset_' s) + unat (data_length op)"
      by (simp add: unat_add_lem [THEN iffD1])
    moreover have "unat (buffer_offset_' s + data_length op) \<le> buffered_end s"
      using c m n eq by (simp add: CanPerformInstallOperation_def buffered_end_def)
    ultimately show ?thesis
      by (simp add: buffered_end_def)
  next
    case False
    then show ?thesis
      using n by (simp add: buffered_end_def)
  qed
  then show ?thesis
    by (simp add: same_check_def)
qed

lemma can_perform_insert_end:
  assumes c: "CanPerformInstallOperation s op" and n: "buffered_end s + length X < 2 ^ 64"
  shows "CanPerformInstallOperation (buffer_insert_end s X) op"
proof (cases "op_type op = MOVE")
  case True
  then show ?thesis by (simp add: CanPerformInstallOperation_def)
next
  case False
  have a: "(unat (buffer_offset_' s) + length (buffer_' s)) mod 2 ^ 64
      = unat (buffer_offset_' s) + length (buffer_' s)"
    using n by (simp add: buffered_end_def)
  have b: "(unat (buffer_offset_' s) + (length (buffer_' s) + length X)) mod 2 ^ 64
      = unat (buffer_offset_' s) + (length (buffer_' s) + length X)"
    using n by (simp add: buffered_end_def)
  show ?thesis
    using c False unfolding CanPerformInstallOperation_def
    by (simp only: insert_end_fields length_append a b if_False split: if_splits) simp
qed

subsection \<open>The loop with more bytes in the buffer\<close>

lemma Write_loop_insert_end:
  assumes "buffered_end s + length X < 2 ^ 64"
  shows "Write_loop e (buffer_insert_end s X) =
     (case Write_loop e s of
        (None, s') \<Rightarrow> Write_loop e (buffer_insert_end s' X)
      | (Some r, s') \<Rightarrow> (Some r, buffer_insert_end s' X))"
  using assms
proof (induction e s rule: Write_loop.induct)
  case (1 e s)
  let ?op = "next_operation s"
  let ?t = "buffer_insert_end s X"
  show ?case
  proof (cases "next_operation_num_' s < total_operations s
      \<and> CanPerformInstallOperation s ?op")
    case False
    then have "Write_loop e s = (None, s)"
      by (subst Write_loop.simps) auto
    then show ?thesis by simp
  next
    case True
    obtain r s1 where ws: "Write_step e s ?op = (r, s1)"
      by (cases "Write_step e s ?op")
    have t: "total_operations ?t = total_operations s" "next_operation ?t = ?op"
      by (simp_all add: total_operations_def next_operation_def)
    have c: "CanPerformInstallOperation ?t ?op"
      using can_perform_insert_end [of s ?op X] True "1.prems" by simp
    have sc: "op_type ?op \<noteq> MOVE \<longrightarrow> same_check s ?op X"
      using can_perform_same_check [of s ?op X] True "1.prems" by simp
    have ws': "Write_step e ?t ?op = (r, buffer_insert_end s1 X)"
      using Write_step_insert_end [OF sc, of e] ws by simp
    have l: "Write_loop e s = (case r of Some x \<Rightarrow> (Some x, s1) | None \<Rightarrow> Write_loop e s1)"
      using True ws by (subst Write_loop.simps) (simp split: option.splits)
    have l': "Write_loop e ?t =
        (case r of Some x \<Rightarrow> (Some x, buffer_insert_end s1 X)
         | None \<Rightarrow> Write_loop e (buffer_insert_end s1 X))"
      using True t c ws' by (subst Write_loop.simps) (simp split: option.splits)
    show ?thesis
    proof (cases r)
      case None
      have "buffered_end s1 \<le> buffered_end s"
        using Write_step_end [of e s ?op] ws by simp
      then have "buffered_end s1 + length X < 2 ^ 64"
        using "1.prems" by simp
      then have "Write_loop e (buffer_insert_end s1 X) =
          (case Write_loop e s1 of
             (None, s') \<Rightarrow> Write_loop e (buffer_insert_end s' X)
           | (Some r, s') \<Rightarrow> (Some r, buffer_insert_end s' X))"
        using "1.IH" [of r s1] True ws None by simp
      then show ?thesis
        by (simp add: l l' None)
    next
      case (Some x)
      then show ?thesis by (simp add: l l')
    qed
  qed
qed

lemma Write_loop_end:
  "buffered_end (snd (Write_loop e s)) \<le> buffered_end s"
proof (rule Write_loop_inv [where I = "\<lambda>t. buffered_end t \<le> buffered_end s"])
  show "buffered_end s \<le> buffered_end s" by simp
next
  fix t
  assume "buffered_end t \<le> buffered_end s"
  then show "buffered_end (snd (Write_step e t (next_operation t))) \<le> buffered_end s"
    using Write_step_end [of e t "next_operation t"] by simp
qed

subsection \<open>The manifest with more bytes in the buffer\<close>

text \<open>
  The size handed to \<^verbatim>\<open>ParseFromArray\<close> is the low 32 bits of \<^verbatim>\<open>protobuf_length\<close> read
  as signed. Once the prefix is complete it is at most the number of bytes behind the
  header: it is negative when the 64-bit sum with the length of the header wrapped.
\<close>

lemma sint_as_mod: "sint (w :: 32 word) = (uint w + 2147483648) mod 4294967296 - 2147483648"
  using int_word_sint [of "uint w", where ?'a = 32] by simp

lemma parse_size_arith:
  fixes u :: int and L :: nat
  assumes u0: "0 \<le> u" and u1: "u < 18446744073709551616" and l: "20 \<le> L"
    and f: "(20 + u) mod 18446744073709551616 \<le> int L"
  shows "nat ((u mod 4294967296 + 2147483648) mod 4294967296 - 2147483648) \<le> L - 20"
proof (cases "20 + u < 18446744073709551616")
  case True
  then have "(20 + u) mod 18446744073709551616 = 20 + u"
    using u0 by simp
  then have a: "u \<le> int L - 20"
    using f by simp
  have "u mod 4294967296 \<le> u"
    using u0 by (rule zmod_le_nonneg_dividend)
  moreover have "0 \<le> u mod 4294967296"
    by simp
  then have "(u mod 4294967296 + 2147483648) mod 4294967296 \<le> u mod 4294967296 + 2147483648"
    by (intro zmod_le_nonneg_dividend) simp
  ultimately have "(u mod 4294967296 + 2147483648) mod 4294967296 - 2147483648 \<le> int L - 20"
    using a by linarith
  then show ?thesis
    using l by linarith
next
  case False
  define w where "w = u - 18446744069414584320"
  have w: "4294967276 \<le> w" "w < 4294967296"
    using False u1 by (simp_all add: w_def)
  have "u = w + 4294967296 * 4294967295"
    by (simp add: w_def)
  then have "u mod 4294967296 = w mod 4294967296"
    by (simp only: mod_mult_self2)
  then have v: "u mod 4294967296 = w"
    using w by simp
  have "w + 2147483648 = w - 2147483648 + 4294967296 * 1"
    by simp
  then have "(w + 2147483648) mod 4294967296 = (w - 2147483648) mod 4294967296"
    by (simp only: mod_mult_self2)
  also have "\<dots> = w - 2147483648"
    using w by simp
  finally have "(u mod 4294967296 + 2147483648) mod 4294967296 - 2147483648 < 0"
    using w by (simp add: v)
  then show ?thesis
    by simp
qed

lemma parse_size_word:
  fixes p :: "64 word"
  assumes "20 \<le> L" "unat (20 + p) \<le> L"
  shows "nat (sint (ucast p :: 32 word)) \<le> L - 20"
proof -
  have u: "0 \<le> uint p" "uint p < 18446744073709551616"
    using uint_lt2p [of p] by simp_all
  have a: "uint (20 + p) = (20 + uint p) mod 18446744073709551616"
    by (simp add: uint_word_ariths)
  have "int (unat (20 + p)) \<le> int L"
    using assms(2) by (simp only: of_nat_le_iff)
  then have "uint (20 + p) \<le> int L"
    by (simp only: uint_nat)
  then have b: "(20 + uint p) mod 18446744073709551616 \<le> int L"
    by (simp only: a)
  have c: "uint (ucast p :: 32 word) = uint p mod 4294967296"
    by (simp add: unsigned_ucast_eq take_bit_eq_mod)
  show ?thesis
    using parse_size_arith [OF u assms(1) b]
    by (simp add: sint_as_mod c)
qed

lemma protobuf_length_append:
  "20 \<le> length b \<Longrightarrow> protobuf_length_of (b @ X) = protobuf_length_of b"
  by (simp add: protobuf_length_of_def)

lemma prefix_complete_append:
  "prefix_complete b \<Longrightarrow> prefix_complete (b @ X)"
  by (simp add: prefix_complete_def protobuf_length_append)

lemma manifest_size_fits:
  assumes "prefix_complete b"
  shows "nat (sint (ucast (protobuf_length_of b) :: 32 word)) + 20 \<le> length b"
proof -
  have "nat (sint (ucast (protobuf_length_of b) :: 32 word)) \<le> length b - 20"
    using assms by (intro parse_size_word) (simp_all add: prefix_complete_def)
  moreover have "20 \<le> length b"
    using assms by (simp add: prefix_complete_def)
  ultimately show ?thesis
    by linarith
qed

lemma manifest_rejected_append:
  "prefix_complete b \<Longrightarrow> manifest_rejected e (b @ X) = manifest_rejected e b"
  using manifest_size_fits [of b]
  by (simp add: manifest_rejected_def Let_def protobuf_length_append prefix_complete_def)

lemma Write_manifest_incomplete:
  "\<not> prefix_complete (buffer_' s) \<Longrightarrow> Write_manifest e s count = (Some (Returned count), s)"
  by (simp add: Write_manifest_cases)

lemma Write_manifest_count:
  "prefix_complete (buffer_' s) \<Longrightarrow> Write_manifest e s count = Write_manifest e s count'"
  by (simp add: Write_manifest_cases)

lemma Write_manifest_insert_end:
  assumes p: "prefix_complete (buffer_' s)"
  shows "Write_manifest e (buffer_insert_end s X) count
     = (fst (Write_manifest e s count), buffer_insert_end (snd (Write_manifest e s count)) X)"
proof -
  have l: "20 \<le> length (buffer_' s)"
    and f: "unat (20 + protobuf_length_of (buffer_' s)) \<le> length (buffer_' s)"
    using p by (simp_all add: prefix_complete_def)
  show ?thesis
    using p l f manifest_size_fits [OF p]
    by (simp add: Write_manifest_cases prefix_complete_append protobuf_length_append
        manifest_rejected_append Let_def emit_def DiscardBufferHeadBytes_def
        buffer_insert_end_def)
qed

subsection \<open>What \<^verbatim>\<open>Write\<close> returns\<close>

lemma Write_step_not_accepted:
  "fst (Write_step e s op) = Some r \<Longrightarrow> \<not> accepted r"
  by (auto simp: Write_step_def Let_def split_beta accepted_def EINVAL_def
      split: result.splits bool.splits)

lemma Write_loop_not_accepted:
  "fst (Write_loop e s) = Some r \<Longrightarrow> \<not> accepted r"
proof (induction e s rule: Write_loop.induct)
  case (1 e s)
  show ?case
  proof (cases "next_operation_num_' s < total_operations s
      \<and> CanPerformInstallOperation s (next_operation s)")
    case False
    then have "Write_loop e s = (None, s)"
      by (subst Write_loop.simps) auto
    then show ?thesis using "1.prems" by simp
  next
    case True
    obtain x s1 where ws: "Write_step e s (next_operation s) = (x, s1)"
      by (cases "Write_step e s (next_operation s)")
    have l: "Write_loop e s = (case x of Some y \<Rightarrow> (Some y, s1) | None \<Rightarrow> Write_loop e s1)"
      using True ws by (subst Write_loop.simps) (simp split: option.splits)
    show ?thesis
    proof (cases x)
      case None
      then show ?thesis
        using "1.IH" [of x s1] True ws "1.prems" l by simp
    next
      case (Some y)
      then have "y = r" using l "1.prems" by simp
      then show ?thesis
        using Write_step_not_accepted [of e s "next_operation s" r] ws Some by simp
    qed
  qed
qed

lemma Write_manifest_not_accepted:
  "prefix_complete (buffer_' s) \<Longrightarrow> fst (Write_manifest e s count) = Some r \<Longrightarrow> \<not> accepted r"
  by (auto simp: Write_manifest_cases Let_def accepted_def EINVAL_def split: if_splits)

lemma Write_as_insert:
  "Write e s a =
     (if manifest_valid_' s then return_count (int (length a)) (Write_loop e (buffer_insert_end s a))
      else case Write_manifest e (buffer_insert_end s a) (int (length a)) of
        (Some r, s1) \<Rightarrow> (r, s1)
      | (None, s1) \<Rightarrow> return_count (int (length a)) (Write_loop e s1))"
  by (simp add: Write_def Let_def return_count_def buffer_insert_end_def
      split: prod.splits option.splits)

lemma return_count_cases:
  "return_count c (Some r, s) = (r, s)"
  "return_count c (None, s) = (Returned c, s)"
  by (simp_all add: return_count_def)

text \<open>
  The loop on a state whose manifest is valid, then the rest of the bytes: the tail of
  both \<^verbatim>\<open>Write\<close>s.
\<close>

lemma loop_tail:
  assumes n: "buffered_end t + length b < 2 ^ 64" and v: "manifest_valid_' t"
  shows "return_count (int (length a + length b)) (Write_loop e (buffer_insert_end t b)) =
     (case return_count (int (length a)) (Write_loop e t) of
        (r, s1) \<Rightarrow>
          if accepted r
          then (with_count (length a + length b) (fst (Write e s1 b)), snd (Write e s1 b))
          else (r, buffer_insert_end s1 b))"
proof -
  obtain x s1 where l: "Write_loop e t = (x, s1)"
    by (cases "Write_loop e t")
  show ?thesis
  proof (cases x)
    case (Some r)
    have "\<not> accepted r"
      using Write_loop_not_accepted [of e t r] l Some by simp
    then show ?thesis
      using Write_loop_insert_end [OF n, of e] l Some by (simp add: return_count_cases)
  next
    case None
    have v1: "manifest_valid_' s1"
      using Write_loop_valid [of e t] l v by simp
    obtain y s2 where l2: "Write_loop e (buffer_insert_end s1 b) = (y, s2)"
      by (cases "Write_loop e (buffer_insert_end s1 b)")
    have na: "\<not> accepted r" if "y = Some r" for r
      using Write_loop_not_accepted [of e "buffer_insert_end s1 b" r] l2 that by simp
    have w: "Write e s1 b = return_count (int (length b)) (y, s2)"
      using v1 l2 by (simp add: Write_as_insert)
    have "Write_loop e (buffer_insert_end t b) = (y, s2)"
      using Write_loop_insert_end [OF n, of e] l None l2 by simp
    then show ?thesis
      using l None w na
      by (cases y) (simp_all add: return_count_cases with_count_def accepted_def)
  qed
qed

lemma Write_end:
  "buffered_end (snd (Write e s a)) \<le> buffered_end s + length a"
proof -
  let ?t = "buffer_insert_end s a"
  have l: "buffered_end (snd (return_count c (Write_loop e u))) \<le> buffered_end u" for c u
    using Write_loop_end [of e u]
    by (cases "Write_loop e u") (simp add: return_count_def split: option.splits)
  have m: "buffered_end (snd (Write_manifest e ?t c)) \<le> buffered_end s + length a" for c
    using Write_manifest_end [of e ?t c] by simp
  show ?thesis
  proof (cases "manifest_valid_' s")
    case True
    then show ?thesis
      using l [of "int (length a)" ?t] by (simp add: Write_as_insert)
  next
    case False
    obtain x sm where wm: "Write_manifest e ?t (int (length a)) = (x, sm)"
      by (cases "Write_manifest e ?t (int (length a))")
    have "buffered_end sm \<le> buffered_end s + length a"
      using m [of "int (length a)"] wm by simp
    then show ?thesis
      using False wm l [of "int (length a)" sm]
      by (cases x) (simp_all add: Write_as_insert)
  qed
qed

lemma Write_accepted_count:
  assumes "accepted (fst (Write e s a))"
  shows "fst (Write e s a) = Returned (int (length a))"
proof -
  let ?t = "buffer_insert_end s a"
  have l: "fst (return_count (int (length a)) (Write_loop e u)) = Returned (int (length a))"
    if "accepted (fst (return_count (int (length a)) (Write_loop e u)))" for u
  proof (cases "Write_loop e u")
    case (Pair x s2)
    show ?thesis
    proof (cases x)
      case None
      then show ?thesis by (simp add: Pair return_count_cases)
    next
      case (Some r)
      then have "\<not> accepted r"
        using Write_loop_not_accepted [of e u r] Pair by simp
      then show ?thesis
        using that by (simp add: Pair Some return_count_cases)
    qed
  qed
  show ?thesis
  proof (cases "manifest_valid_' s")
    case True
    then show ?thesis
      using assms l [of ?t] by (simp add: Write_as_insert)
  next
    case False
    show ?thesis
    proof (cases "prefix_complete (buffer_' ?t)")
      case False
      then show ?thesis
        using \<open>\<not> manifest_valid_' s\<close> by (simp add: Write_as_insert Write_manifest_incomplete)
    next
      case True
      obtain x sm where wm: "Write_manifest e ?t (int (length a)) = (x, sm)"
        by (cases "Write_manifest e ?t (int (length a))")
      show ?thesis
      proof (cases x)
        case None
        then show ?thesis
          using assms \<open>\<not> manifest_valid_' s\<close> wm l [of sm] by (simp add: Write_as_insert)
      next
        case (Some r)
        then have "\<not> accepted r"
          using Write_manifest_not_accepted [OF True, of e "int (length a)" r] wm by simp
        then show ?thesis
          using assms \<open>\<not> manifest_valid_' s\<close> wm Some by (simp add: Write_as_insert)
      qed
    qed
  qed
qed

text \<open>
  A \<^verbatim>\<open>Write\<close> of \<open>a\<close> followed by \<open>b\<close> against the \<^verbatim>\<open>Write\<close> of \<open>a\<close> and then, if that one was
  accepted, the \<^verbatim>\<open>Write\<close> of \<open>b\<close>.
\<close>

lemma Write_append:
  assumes n: "buffered_end s + length a + length b < 2 ^ 64"
  shows "Write e s (a @ b) =
     (case Write e s a of
        (r, s1) \<Rightarrow>
          if accepted r
          then (with_count (length a + length b) (fst (Write e s1 b)), snd (Write e s1 b))
          else (r, buffer_insert_end s1 b))"
proof -
  let ?t = "buffer_insert_end s a"
  let ?T = "buffer_insert_end ?t b"
  have T: "buffer_insert_end s (a @ b) = ?T"
    by (simp add: insert_end_append)
  have nt: "buffered_end ?t + length b < 2 ^ 64"
    using n by simp
  show ?thesis
  proof (cases "manifest_valid_' s")
    case True
    then show ?thesis
      using loop_tail [OF nt, of a e] by (simp add: Write_as_insert T)
  next
    case nv: False
    show ?thesis
    proof (cases "prefix_complete (buffer_' ?t)")
      case True
      obtain x sm where wm: "Write_manifest e ?t (int (length a)) = (x, sm)"
        by (cases "Write_manifest e ?t (int (length a))")
      have "Write_manifest e ?T (int (length a)) = (x, buffer_insert_end sm b)"
        using Write_manifest_insert_end [OF True, of e b "int (length a)"] wm by simp
      moreover have "prefix_complete (buffer_' ?T)"
        using prefix_complete_append [of "buffer_' ?t" b] True by simp
      ultimately have wm': "Write_manifest e ?T (int (length a + length b))
          = (x, buffer_insert_end sm b)"
        using Write_manifest_count [of ?T e "int (length a + length b)" "int (length a)"]
        by simp
      show ?thesis
      proof (cases x)
        case (Some r)
        then have "\<not> accepted r"
          using Write_manifest_not_accepted [OF True, of e "int (length a)" r] wm by simp
        then show ?thesis
          using nv wm wm' Some by (simp add: Write_as_insert T)
      next
        case None
        have v: "manifest_valid_' sm"
          using Write_manifest_valid [of e ?t "int (length a)"] wm None by simp
        have "buffered_end sm \<le> buffered_end ?t"
          using Write_manifest_end [of e ?t "int (length a)"] wm by simp
        then have "buffered_end sm + length b < 2 ^ 64"
          using nt by simp
        from loop_tail [OF this v, of a e] show ?thesis
          using nv wm wm' None by (simp add: Write_as_insert T)
      qed
    next
      case False
      have wa: "Write e s a = (Returned (int (length a)), ?t)"
        using nv False by (simp add: Write_as_insert Write_manifest_incomplete)
      have nvt: "\<not> manifest_valid_' ?t"
        using nv by simp
      have "Write e s (a @ b)
          = (with_count (length a + length b) (fst (Write e ?t b)), snd (Write e ?t b))"
      proof (cases "prefix_complete (buffer_' ?T)")
        case False
        then show ?thesis
          using nv nvt
          by (simp add: Write_as_insert [of e s] Write_as_insert [of e ?t] T
              Write_manifest_incomplete with_count_def accepted_def)
      next
        case True
        obtain x sm where wm: "Write_manifest e ?T (int (length b)) = (x, sm)"
          by (cases "Write_manifest e ?T (int (length b))")
        have wm': "Write_manifest e ?T (int (length a + length b)) = (x, sm)"
          using Write_manifest_count [OF True, of e "int (length a + length b)" "int (length b)"]
            wm by simp
        show ?thesis
        proof (cases x)
          case (Some r)
          then have "\<not> accepted r"
            using Write_manifest_not_accepted [OF True, of e "int (length b)" r] wm by simp
          then show ?thesis
            using nv nvt wm wm' Some
            by (simp add: Write_as_insert [of e s] Write_as_insert [of e ?t] T with_count_def)
        next
          case None
          obtain y s2 where l: "Write_loop e sm = (y, s2)"
            by (cases "Write_loop e sm")
          have "\<not> accepted r" if "y = Some r" for r
            using Write_loop_not_accepted [of e sm r] l that by simp
          then show ?thesis
            using nv nvt wm wm' None l
            by (cases y)
               (simp_all add: Write_as_insert [of e s] Write_as_insert [of e ?t] T with_count_def
                  return_count_cases accepted_def)
        qed
      qed
      then show ?thesis
        by (simp add: wa accepted_def)
    qed
  qed
qed

subsection \<open>The chunks against the whole payload\<close>

lemma feed_chunks_accepted:
  "feed_chunks e s (chunk # chunks) =
     (case Write e s chunk of
        (r, s') \<Rightarrow> if accepted r then feed_chunks e s' chunks else (Some r, s'))"
  by (auto simp: accepted_def split: prod.splits result.splits)

lemma feed_not_accepted:
  "fst (feed_chunks e s chunks) = Some r \<Longrightarrow> \<not> accepted r"
proof (induction chunks arbitrary: s)
  case Nil
  then show ?case by simp
next
  case (Cons a chunks)
  obtain x s1 where w: "Write e s a = (x, s1)"
    by (cases "Write e s a")
  show ?case
  proof (cases "accepted x")
    case True
    then show ?thesis
      using Cons.IH [of s1] Cons.prems w
      by (simp add: feed_chunks_accepted del: feed_chunks.simps)
  next
    case False
    then show ?thesis
      using Cons.prems w by (simp add: feed_chunks_accepted del: feed_chunks.simps)
  qed
qed

lemma with_count_single:
  assumes "\<And>r. f = Some r \<Longrightarrow> \<not> accepted r"
  shows "with_count n (single_result f m) = single_result f n"
  using assms by (cases f) (simp_all add: with_count_def single_result_def accepted_def)

lemma chunks_against_whole:
  assumes "chunks \<noteq> []" and "buffered_end s + length (concat chunks) < 2 ^ 64"
  shows "\<exists>rest.
     Write e s (concat chunks) =
       (single_result (fst (feed_chunks e s chunks)) (length (concat chunks)),
        buffer_insert_end (snd (feed_chunks e s chunks)) rest)
     \<and> (fst (feed_chunks e s chunks) = None \<longrightarrow> rest = [])"
  using assms
proof (induction chunks arbitrary: s)
  case Nil
  then show ?case by simp
next
  case (Cons a chunks)
  obtain r s1 where w: "Write e s a = (r, s1)"
    by (cases "Write e s a")
  have n: "buffered_end s + length a + length (concat chunks) < 2 ^ 64"
    using Cons.prems(2) by simp
  note wa = Write_append [OF n, of e]
  show ?case
  proof (cases "accepted r")
    case False
    then have "Write e s (concat (a # chunks)) = (r, buffer_insert_end s1 (concat chunks))"
      using wa w by simp
    moreover have "feed_chunks e s (a # chunks) = (Some r, s1)"
      using False w by (simp add: feed_chunks_accepted del: feed_chunks.simps)
    ultimately show ?thesis
      by (auto simp: single_result_def simp del: feed_chunks.simps)
  next
    case True
    have f: "feed_chunks e s (a # chunks) = feed_chunks e s1 chunks"
      using True w by (simp add: feed_chunks_accepted del: feed_chunks.simps)
    show ?thesis
    proof (cases "chunks = []")
      case Nil: True
      have "r = Returned (int (length a))"
        using Write_accepted_count [of e s a] w \<open>accepted r\<close> by simp
      then have "Write e s (concat (a # chunks))
          = (single_result (fst (feed_chunks e s (a # chunks))) (length (concat (a # chunks))),
             buffer_insert_end (snd (feed_chunks e s (a # chunks))) [])"
        using w Nil by (simp add: f single_result_def)
      moreover have "fst (feed_chunks e s (a # chunks)) = None \<longrightarrow> ([] :: byte list) = []"
        by simp
      ultimately show ?thesis
        by (intro exI [of _ "[]"] conjI)
    next
      case False
      have "buffered_end s1 \<le> buffered_end s + length a"
        using Write_end [of e s a] w by simp
      then have "buffered_end s1 + length (concat chunks) < 2 ^ 64"
        using n by simp
      from Cons.IH [OF False this] obtain rest where
        ie: "Write e s1 (concat chunks) =
            (single_result (fst (feed_chunks e s1 chunks)) (length (concat chunks)),
             buffer_insert_end (snd (feed_chunks e s1 chunks)) rest)
          \<and> (fst (feed_chunks e s1 chunks) = None \<longrightarrow> rest = [])"
        by (rule exE)
      note i = ie [THEN conjunct1] and e = ie [THEN conjunct2]
      have "with_count (length a + length (concat chunks))
          (single_result (fst (feed_chunks e s1 chunks)) (length (concat chunks)))
          = single_result (fst (feed_chunks e s1 chunks)) (length a + length (concat chunks))"
        by (rule with_count_single) (rule feed_not_accepted)
      then have "Write e s (concat (a # chunks)) =
          (single_result (fst (feed_chunks e s (a # chunks))) (length (concat (a # chunks))),
           buffer_insert_end (snd (feed_chunks e s (a # chunks))) rest)"
        using wa w True i by (simp add: f del: feed_chunks.simps)
      moreover have "fst (feed_chunks e s (a # chunks)) = None \<longrightarrow> rest = []"
        using e by (simp only: f)
      ultimately show ?thesis
        by (intro exI [of _ rest] conjI)
    qed
  qed
qed


text \<open>
  The theorem on the payload of a MOVE followed by a REPLACE of two bytes, handed over
  in three chunks: the 20 bytes of the metadata, then each byte of the blob.
\<close>

lemma three_chunks_accepted:
  "fst (feed_chunks (stub_env move_replace_manifest) new_performer
      [payload_prefix ''CrAU'', [7], [9]]) = None"
  by (simp add: run_simps move_replace_manifest_def replicate_two)



end
